theory Spec2Isabelle
  imports Main "HOL-Library.Sublist"
begin

section \<open>Strings\<close>

text \<open>
  A JavaScript string is modelled as a \<^typ>\<open>string\<close>: a list of code units, here the code
  units U+0000 to U+00FF. The character classes and the case mapping below are the
  ECMAScript ones restricted to that range.
\<close>

definition slash :: char where
  "slash = CHR ''/''"

definition backslash :: char where
  "backslash = CHR 0x5C"

text \<open>The class \<open>\s\<close>: TAB, LF, VT, FF, CR, SPACE and NO-BREAK SPACE.\<close>

definition is_space :: "char \<Rightarrow> bool" where
  "is_space c = (of_char c \<in> {9, 10, 11, 12, 13, 32, 160 :: nat})"

text \<open>The class \<open>\w\<close>: \<open>[A-Za-z0-9_]\<close>.\<close>

definition is_word :: "char \<Rightarrow> bool" where
  "is_word c =
     (let n = (of_char c :: nat)
      in (65 \<le> n \<and> n \<le> 90) \<or> (97 \<le> n \<and> n \<le> 122) \<or> (48 \<le> n \<and> n \<le> 57) \<or> n = 95)"

text \<open>
  \<open>String.prototype.toLowerCase\<close> on one code unit: \<open>A-Z\<close> and the capital letters
  U+00C0 to U+00DE (without the multiplication sign U+00D7) move up by 32.
\<close>

definition lower_char :: "char \<Rightarrow> char" where
  "lower_char c =
     (let n = (of_char c :: nat)
      in if (65 \<le> n \<and> n \<le> 90) \<or> (192 \<le> n \<and> n \<le> 222 \<and> n \<noteq> 215)
         then char_of (n + 32) else c)"

definition toLowerCase :: "string \<Rightarrow> string" where
  "toLowerCase s = map lower_char s"

text \<open>\<open>s.startsWith(p)\<close> is \<^term>\<open>prefix p s\<close>; \<open>s.endsWith(p)\<close> is \<^term>\<open>suffix p s\<close>.\<close>

text \<open>\<open>xs.join(sep)\<close>.\<close>

fun join :: "string \<Rightarrow> string list \<Rightarrow> string" where
  "join sep [] = []"
| "join sep [x] = x"
| "join sep (x # y # ys) = x @ sep @ join sep (y # ys)"

text \<open>\<open>s.split("/")\<close>: the pieces between the separators, empty pieces included.\<close>

fun split_slash :: "string \<Rightarrow> string list" where
  "split_slash [] = [[]]"
| "split_slash (c # cs) =
     (if c = slash then [] # split_slash cs
      else (case split_slash cs of [] \<Rightarrow> [[c]] | x # xs \<Rightarrow> (c # x) # xs))"

text \<open>
  The small anchored patterns of the source, each written as the function the pattern
  computes:
  \<^item> \<open>s.replace(/\/+$/, "")\<close> removes the whole run of separators at the end;
  \<^item> \<open>s.replace(/\/$/, "")\<close> removes one separator at the end;
  \<^item> \<open>s.replace(/\/?$/, "/")\<close> matches the last separator when the string ends with one
    (and puts it back), the empty string at the end otherwise (and appends one);
  \<^item> \<open>s.replace(/^\//, "")\<close> removes one separator at the start;
  \<^item> \<open>s.replace(/\\/g, "/")\<close> turns every backslash into a separator;
  \<^item> \<open>s.replace(/[^\w]/g, "_")\<close> turns every non-word character into an underscore.
\<close>

definition strip_trailing_slashes :: "string \<Rightarrow> string" where
  "strip_trailing_slashes s = rev (dropWhile (\<lambda>c. c = slash) (rev s))"

definition strip_trailing_slash :: "string \<Rightarrow> string" where
  "strip_trailing_slash s = (if suffix [slash] s then butlast s else s)"

definition ensure_trailing_slash :: "string \<Rightarrow> string" where
  "ensure_trailing_slash s = (if suffix [slash] s then s else s @ [slash])"

definition strip_leading_slash :: "string \<Rightarrow> string" where
  "strip_leading_slash s = (if prefix [slash] s then tl s else s)"

definition backslashes_to_slashes :: "string \<Rightarrow> string" where
  "backslashes_to_slashes s = map (\<lambda>c. if c = backslash then slash else c) s"

definition non_word_to_underscore :: "string \<Rightarrow> string" where
  "non_word_to_underscore s = map (\<lambda>c. if is_word c then c else CHR ''_'') s"

text \<open>
  \<open>s.replace(pat, "")\<close> with a string pattern: the first occurrence of \<open>pat\<close> is
  removed.
\<close>

fun remove_first :: "string \<Rightarrow> string \<Rightarrow> string" where
  "remove_first pat [] = []"
| "remove_first pat (c # cs) =
     (if prefix pat (c # cs) then drop (length pat) (c # cs) else c # remove_first pat cs)"

text \<open>The decimal digits of a number, as template literals print it.\<close>

fun digits :: "nat \<Rightarrow> nat \<Rightarrow> string" where
  "digits 0 n = []"
| "digits (Suc fuel) n =
     (if n < 10 then [char_of (48 + n)]
      else digits fuel (n div 10) @ [char_of (48 + n mod 10)])"

definition show_nat :: "nat \<Rightarrow> string" where
  "show_nat n = digits (Suc n) n"

section \<open>Regular expressions\<close>

text \<open>
  A pattern with the global flag is a function from the subject and a start index to the
  length of the match that starts exactly there and the text of capture group 1, if the
  pattern matches there. The matched text is read off the subject, so a length that runs
  past the end stands for the rest of the subject.
\<close>

type_synonym pattern = "string \<Rightarrow> nat \<Rightarrow> (nat \<times> string) option"

text \<open>
  The default marker \<open>/<!--\s*@vite:entry\s+([^\s]+)\s*-->/g\<close> is a sequence of literals
  and greedy repetitions of a character class. A repetition takes as many characters as
  the class allows and gives them back one at a time (down to its minimum) while the rest
  of the pattern fails. The flag of a repetition says that it is capture group 1.
\<close>

datatype node = Lit string | Rep nat "char \<Rightarrow> bool" bool

fun try_down :: "(nat \<Rightarrow> 'a option) \<Rightarrow> nat \<Rightarrow> nat \<Rightarrow> 'a option" where
  "try_down f lo 0 = (if lo = 0 then f 0 else None)"
| "try_down f lo (Suc j) =
     (if Suc j < lo then None
      else (case f (Suc j) of Some r \<Rightarrow> Some r | None \<Rightarrow> try_down f lo j))"

fun rx_match :: "node list \<Rightarrow> string \<Rightarrow> nat \<Rightarrow> string \<Rightarrow> (nat \<times> string) option" where
  "rx_match [] t k cap = Some (k, cap)"
| "rx_match (Lit l # ns) t k cap =
     (if prefix l t then rx_match ns (drop (length l) t) (k + length l) cap else None)"
| "rx_match (Rep lo cls g # ns) t k cap =
     try_down (\<lambda>j. rx_match ns (drop j t) (k + j) (if g then take j t else cap))
       lo (length (takeWhile cls t))"

definition entry_marker :: "node list" where
  "entry_marker =
     [Lit ''<!--'', Rep 0 is_space False, Lit ''@vite:entry'', Rep 1 is_space False,
      Rep 1 (\<lambda>c. \<not> is_space c) True, Rep 0 is_space False, Lit ''-->'']"

definition default_marker :: pattern where
  "default_marker s i = rx_match entry_marker (drop i s) 0 []"

text \<open>The result of a successful \<open>exec\<close>: \<open>m.index\<close>, \<open>m[0]\<close> and \<open>m[1]\<close>.\<close>

record rmatch =
  m_index :: nat
  m_all :: string
  m_group1 :: string

text \<open>
  \<open>RegExp.prototype.exec\<close> of a global pattern whose \<open>lastIndex\<close> is \<open>i\<close>: the first
  index from \<open>i\<close> on at which the pattern matches; an index past the end fails. After a
  match \<open>lastIndex\<close> is the end of the match, \<^term>\<open>m_index r + length (m_all r)\<close>.
\<close>

function regexp_exec :: "pattern \<Rightarrow> string \<Rightarrow> nat \<Rightarrow> rmatch option" where
  "regexp_exec pat s i =
     (if length s < i then None
      else (case pat s i of
              Some (n, c) \<Rightarrow> Some \<lparr>m_index = i, m_all = take n (drop i s), m_group1 = c\<rparr>
            | None \<Rightarrow> regexp_exec pat s (Suc i)))"
  by pat_completeness auto
termination
  by (relation "measure (\<lambda>(pat, s, i). Suc (length s) - i)") auto

declare regexp_exec.simps [simp del]

text \<open>\<open>pat.lastIndex = 0; pat.test(s)\<close>.\<close>

definition regexp_test :: "pattern \<Rightarrow> string \<Rightarrow> bool" where
  "regexp_test pat s = (regexp_exec pat s 0 \<noteq> None)"

lemma regexp_exec_bounds:
  "regexp_exec pat s i = Some r \<Longrightarrow> i \<le> m_index r \<and> m_index r \<le> length s"
proof (induction pat s i rule: regexp_exec.induct)
  case (1 pat s i)
  show ?case
  proof (cases "length s < i")
    case True
    with "1.prems" show ?thesis by (simp add: regexp_exec.simps)
  next
    case inb: False
    show ?thesis
    proof (cases "pat s i")
      case None
      with inb "1.prems" have "regexp_exec pat s (Suc i) = Some r"
        by (simp add: regexp_exec.simps [of pat s i])
      with "1.IH" inb None show ?thesis by fastforce
    next
      case (Some a)
      with inb "1.prems" show ?thesis
        by (cases a) (auto simp: regexp_exec.simps [of pat s i])
    qed
  qed
qed

text \<open>
  The matches that \<open>String.prototype.replace\<close> collects for a global pattern: it calls
  \<open>exec\<close> until it fails, and steps \<open>lastIndex\<close> over an empty match.
\<close>

function replace_results :: "pattern \<Rightarrow> string \<Rightarrow> nat \<Rightarrow> rmatch list" where
  "replace_results pat s i =
     (case regexp_exec pat s i of
        None \<Rightarrow> []
      | Some r \<Rightarrow>
          r # replace_results pat s
                (let e = m_index r + length (m_all r) in if m_all r = [] then Suc e else e))"
  by pat_completeness auto
termination
proof (relation "measure (\<lambda>(pat, s, i). Suc (length s) - i)", goal_cases)
  case 1
  show ?case by simp
next
  case (2 pat s i r)
  from regexp_exec_bounds [OF 2] have "i \<le> m_index r" "m_index r \<le> length s" by simp_all
  then show ?case by (cases "m_all r") (auto simp: Let_def)
qed

declare replace_results.simps [simp del]

text \<open>
  The second half of \<open>replace\<close> with a replacer function: the function is called for
  each match in order (it may keep state of its own, threaded here as \<open>st\<close>), and the
  result is the text between the matches with each match replaced by what the function
  returned. \<open>nsp\<close> is the \<open>nextSourcePosition\<close> of the language definition.
\<close>

fun replace_emit ::
  "string \<Rightarrow> (rmatch \<Rightarrow> 'st \<Rightarrow> string \<times> 'st) \<Rightarrow> nat \<Rightarrow> 'st \<Rightarrow> rmatch list \<Rightarrow> string \<times> 'st" where
  "replace_emit s cb nsp st [] = (drop nsp s, st)"
| "replace_emit s cb nsp st (r # rs) =
     (case cb r st of (rep, st') \<Rightarrow>
        if nsp \<le> m_index r
        then (case replace_emit s cb (m_index r + length (m_all r)) st' rs of
                (out, st'') \<Rightarrow> (take (m_index r - nsp) (drop nsp s) @ rep @ out, st''))
        else replace_emit s cb nsp st' rs)"

definition string_replace ::
  "string \<Rightarrow> pattern \<Rightarrow> (rmatch \<Rightarrow> 'st \<Rightarrow> string \<times> 'st) \<Rightarrow> 'st \<Rightarrow> string \<times> 'st" where
  "string_replace s pat cb st = replace_emit s cb 0 st (replace_results pat s 0)"

section \<open>Paths\<close>

text \<open>
  The functions of Node's \<open>path\<close> module that the plug-in calls, in their POSIX form.
  A path is read as its segments between separators; \<open>.\<close> and empty segments are
  dropped and \<open>..\<close> removes the segment before it. \<open>allowAboveRoot\<close> says whether a \<open>..\<close> with
  nothing before it is kept (relative paths) or dropped (absolute paths). The segments
  already passed are kept in \<open>acc\<close>, last one first.
\<close>

fun normalize_segments :: "bool \<Rightarrow> string list \<Rightarrow> string list \<Rightarrow> string list" where
  "normalize_segments allowAboveRoot acc [] = rev acc"
| "normalize_segments allowAboveRoot acc (x # xs) =
     (if x = [] \<or> x = ''.'' then normalize_segments allowAboveRoot acc xs
      else if x = ''..'' then
        (case acc of
           [] \<Rightarrow> normalize_segments allowAboveRoot (if allowAboveRoot then [''..''] else []) xs
         | y # ys \<Rightarrow>
             if y = ''..'' then normalize_segments allowAboveRoot (if allowAboveRoot then ''..'' # acc else acc) xs
             else normalize_segments allowAboveRoot ys xs)
      else normalize_segments allowAboveRoot (x # acc) xs)"

definition normalizeString :: "string \<Rightarrow> bool \<Rightarrow> string" where
  "normalizeString p allowAboveRoot = join ''/'' (normalize_segments allowAboveRoot [] (split_slash p))"

definition path_isAbsolute :: "string \<Rightarrow> bool" where
  "path_isAbsolute p = prefix [slash] p"

text \<open>
  \<open>path.resolve(p)\<close> in a process whose working directory is \<open>cwd\<close>: the argument, and
  the working directory before it unless the argument is absolute; empty strings are
  skipped.
\<close>

definition path_resolve :: "string \<Rightarrow> string \<Rightarrow> string" where
  "path_resolve cwd p =
     (let r1 = (if p = [] then [] else p @ ''/'');
          r2 = (if path_isAbsolute p \<or> cwd = [] then r1 else cwd @ ''/'' @ r1);
          resolvedAbsolute = (path_isAbsolute p \<or> path_isAbsolute cwd);
          resolvedPath = normalizeString r2 (\<not> resolvedAbsolute)
      in if resolvedAbsolute then ''/'' @ resolvedPath
         else if resolvedPath \<noteq> [] then resolvedPath else ''.'')"

text \<open>\<open>path.normalize(p)\<close>.\<close>

definition path_normalize :: "string \<Rightarrow> string" where
  "path_normalize p =
     (if p = [] then ''.''
      else
        (let isAbsolute = path_isAbsolute p;
             trailingSeparator = suffix [slash] p;
             q = normalizeString p (\<not> isAbsolute)
         in if q = [] then (if isAbsolute then ''/'' else if trailingSeparator then ''./'' else ''.'')
            else (if isAbsolute then ''/'' else []) @ q @ (if trailingSeparator then ''/'' else [])))"

text \<open>\<open>path.join(a, b)\<close>: the non-empty arguments joined by a separator, normalised.\<close>

definition path_join :: "string \<Rightarrow> string \<Rightarrow> string" where
  "path_join a b =
     (let parts = filter (\<lambda>x. x \<noteq> []) [a, b]
      in if parts = [] then ''.'' else path_normalize (join ''/'' parts))"

text \<open>
  \<open>path.relative(from, to)\<close>: both are resolved; the segments they share at the start
  are dropped, each segment left of \<open>from\<close> becomes \<open>..\<close>, and what is left of \<open>to\<close>
  follows.
\<close>

fun drop_common :: "string list \<Rightarrow> string list \<Rightarrow> string list \<times> string list" where
  "drop_common (x # xs) (y # ys) = (if x = y then drop_common xs ys else (x # xs, y # ys))"
| "drop_common xs ys = (xs, ys)"

definition path_segments :: "string \<Rightarrow> string list" where
  "path_segments p = filter (\<lambda>x. x \<noteq> []) (split_slash p)"

definition path_relative :: "string \<Rightarrow> string \<Rightarrow> string \<Rightarrow> string" where
  "path_relative cwd from to =
     (if from = to then []
      else
        (let f = path_resolve cwd from; t = path_resolve cwd to
         in if f = t then []
            else (case drop_common (path_segments f) (path_segments t) of
                    (fs, ts) \<Rightarrow> join ''/'' (replicate (length fs) ''..'' @ ts))))"

text \<open>\<open>path.basename(p)\<close>: the last segment, separators at the end not counted.\<close>

definition path_basename :: "string \<Rightarrow> string" where
  "path_basename p = last (split_slash (strip_trailing_slashes p))"

text \<open>
  \<open>path.dirname(p)\<close>: the path up to the separator before the last segment. The scan
  runs from the end down to index 1: separators at the end are passed, then the last
  segment, and the first separator after it ends the result.
\<close>

definition path_dirname :: "string \<Rightarrow> string" where
  "path_dirname p =
     (if p = [] then ''.''
      else
        (let hasRoot = path_isAbsolute p;
             r = dropWhile (\<lambda>c. c \<noteq> slash) (dropWhile (\<lambda>c. c = slash) (rev (tl p)));
             e = length r
         in if r = [] then (if hasRoot then ''/'' else ''.'')
            else if hasRoot \<and> e = 1 then ''//''
            else take e p))"

section \<open>The plug-in's data\<close>

datatype mode = Dev | Build

text \<open>
  What the plug-in reads of a Rollup output chunk. \<open>importedCss\<close> is
  \<open>viteMetadata?.importedCss\<close>, in the order in which the set is iterated.
\<close>

record OutputChunk =
  isEntry :: bool
  facadeModuleId :: "string option"
  fileName :: string
  importedCss :: "string list option"

datatype bundle_item = Chunk OutputChunk | Asset string

text \<open>\<open>Object.values(bundle)\<close>.\<close>

type_synonym OutputBundle = "bundle_item list"

record DnnAscxRenderContext =
  mode :: mode
  ascxPath :: string
  entryFromMarker :: string
  entryAbs :: string
  jsUrl :: string
  cssUrls :: "string list"
  devClientUrl :: "string option"
  chunk :: "OutputChunk option"

record EntryRef =
  ref_ascxPath :: string
  ref_entryAbs :: string

text \<open>
  The options of the plug-in. The fields \<open>marker\<close>, \<open>render\<close>, \<open>devOrigin\<close> and
  \<open>ascxRootDir\<close> carry the prefix \<open>opt_\<close>, since the plug-in binds these names to
  values computed from the options.
\<close>

record DnnAscxPluginOptions =
  ascxGlobs :: "string list"
  outAscxDir :: "string option"
  opt_marker :: "pattern option"
  publicBase :: "string option"
  devOutAscxDir :: "string option"
  opt_devOrigin :: "string option"
  opt_ascxRootDir :: "string option"
  requireAtLeastOneEntry :: "bool option"
  opt_render :: "(DnnAscxRenderContext \<Rightarrow> string) option"

datatype command = CmdServe | CmdBuild

text \<open>What the plug-in reads of Vite's resolved configuration and of the dev server.\<close>

record ResolvedConfig =
  command :: command
  base :: "string option"
  publicDir :: string
  build_outDir :: string

record ViteDevServer =
  server_origin :: "string option"
  server_port :: "nat option"

text \<open>The variables of the plug-in's closure that its hooks assign.\<close>

record plugin_state =
  allAscxFiles :: "string list"
  refs :: "EntryRef list"
  buildOutDir :: string
  devOutDir :: string
  prodOutDir :: "string option"
  ignore :: "string list"

section \<open>The file system and the reload channel\<close>

text \<open>
  The world outside the plug-in: the text files by path, and the effects so far in the
  order in which they happened. Reading a file that is not there throws; creating a
  directory and writing a file are taken to succeed.
\<close>

datatype effect = MkdirSync string | WriteFileSync string string | FullReload

datatype error = ENOENT string | Error string

record world =
  files :: "string \<Rightarrow> string option"
  trace :: "effect list"

definition readFileSync :: "world \<Rightarrow> string \<Rightarrow> error + string" where
  "readFileSync w p = (case files w p of None \<Rightarrow> Inl (ENOENT p) | Some c \<Rightarrow> Inr c)"

definition mkdirSync :: "string \<Rightarrow> world \<Rightarrow> world" where
  "mkdirSync d w = w\<lparr>trace := trace w @ [MkdirSync d]\<rparr>"

definition writeFileSync :: "string \<Rightarrow> string \<Rightarrow> world \<Rightarrow> world" where
  "writeFileSync p c w = w\<lparr>files := (files w)(p \<mapsto> c), trace := trace w @ [WriteFileSync p c]\<rparr>"

text \<open>\<open>server.ws.send({ type: 'full-reload', path: '*' })\<close>.\<close>

definition reload :: "world \<Rightarrow> world" where
  "reload w = w\<lparr>trace := trace w @ [FullReload]\<rparr>"

section \<open>The plug-in\<close>

definition marker :: "DnnAscxPluginOptions \<Rightarrow> pattern" where
  "marker opts = (case opt_marker opts of None \<Rightarrow> default_marker | Some m \<Rightarrow> m)"

definition ascxRootDir :: "DnnAscxPluginOptions \<Rightarrow> string \<Rightarrow> string" where
  "ascxRootDir opts cwd =
     path_resolve cwd (case opt_ascxRootDir opts of None \<Rightarrow> cwd | Some d \<Rightarrow> d)"

definition norm :: "string \<Rightarrow> string" where
  "norm p = toLowerCase (strip_trailing_slashes (backslashes_to_slashes p))"

definition absPath :: "string \<Rightarrow> string \<Rightarrow> string" where
  "absPath cwd p = norm (if path_isAbsolute p then p else path_resolve cwd p)"

text \<open>\<open>!dir\<close> holds for a missing directory and for the empty string.\<close>

definition dirToIgnore :: "string option \<Rightarrow> string list" where
  "dirToIgnore dir =
     (case dir of
        None \<Rightarrow> []
      | Some d0 \<Rightarrow> if d0 = [] then [] else (let d = norm d0 in [d, d @ ''/**'']))"

text \<open>\<open>Array.from(new Set(arr))\<close>: the first occurrence of each element stays.\<close>

fun uniq_from :: "string list \<Rightarrow> string list \<Rightarrow> string list" where
  "uniq_from seen [] = []"
| "uniq_from seen (x # xs) =
     (if x \<in> set seen then uniq_from seen xs else x # uniq_from (x # seen) xs)"

definition uniq :: "string list \<Rightarrow> string list" where
  "uniq arr = uniq_from [] arr"

text \<open>
  A falsy \<open>facadeModuleId\<close> is \<open>null\<close>, \<open>undefined\<close> or the empty string.
\<close>

fun getChunkBySourceEntry :: "string \<Rightarrow> OutputBundle \<Rightarrow> string \<Rightarrow> OutputChunk option" where
  "getChunkBySourceEntry cwd [] entry = None"
| "getChunkBySourceEntry cwd (Asset a # items) entry =
     getChunkBySourceEntry cwd items entry"
| "getChunkBySourceEntry cwd (Chunk item # items) entry =
     (if isEntry item \<and>
         (case facadeModuleId item of
            None \<Rightarrow> False
          | Some fid \<Rightarrow> fid \<noteq> [] \<and> path_resolve cwd fid = entry)
      then Some item
      else getChunkBySourceEntry cwd items entry)"

definition toPublicUrl :: "DnnAscxPluginOptions \<Rightarrow> ResolvedConfig \<Rightarrow> string \<Rightarrow> string" where
  "toPublicUrl opts cfg p =
     (let base = ensure_trailing_slash
                   (case publicBase opts of
                      Some b \<Rightarrow> b
                    | None \<Rightarrow> (case base cfg of Some b \<Rightarrow> b | None \<Rightarrow> ''/''))
      in base @ strip_leading_slash p)"

text \<open>A configured origin counts when it is a non-empty string.\<close>

definition computeDevOrigin :: "DnnAscxPluginOptions \<Rightarrow> ViteDevServer \<Rightarrow> string" where
  "computeDevOrigin opts server =
     (case opt_devOrigin opts of
        Some d \<Rightarrow>
          if d \<noteq> [] then strip_trailing_slash d
          else (case server_origin server of
                  Some origin \<Rightarrow>
                    if origin \<noteq> [] then strip_trailing_slash origin
                    else ''http://localhost:'' @
                         show_nat (case server_port server of None \<Rightarrow> 5173 | Some port \<Rightarrow> port)
                | None \<Rightarrow>
                    ''http://localhost:'' @
                    show_nat (case server_port server of None \<Rightarrow> 5173 | Some port \<Rightarrow> port))
      | None \<Rightarrow>
          (case server_origin server of
             Some origin \<Rightarrow>
               if origin \<noteq> [] then strip_trailing_slash origin
               else ''http://localhost:'' @
                    show_nat (case server_port server of None \<Rightarrow> 5173 | Some port \<Rightarrow> port)
           | None \<Rightarrow>
               ''http://localhost:'' @
               show_nat (case server_port server of None \<Rightarrow> 5173 | Some port \<Rightarrow> port)))"

text \<open>
  \<open>writeMirrored\<close>: \<open>outPath\<close> is the path it computes, and the two file-system calls
  follow.
\<close>

definition outPath :: "DnnAscxPluginOptions \<Rightarrow> string \<Rightarrow> string \<Rightarrow> string \<Rightarrow> string" where
  "outPath opts cwd outDir absFilePath =
     (let rel = path_relative cwd (ascxRootDir opts cwd) absFilePath;
          safeRel = (if prefix ''..'' rel then path_basename absFilePath else rel)
      in path_join outDir safeRel)"

definition writeMirrored ::
  "DnnAscxPluginOptions \<Rightarrow> string \<Rightarrow> string \<Rightarrow> string \<Rightarrow> string \<Rightarrow> world \<Rightarrow> world" where
  "writeMirrored opts cwd outDir absFilePath contents w =
     (let p = outPath opts cwd outDir absFilePath
      in writeFileSync p contents (mkdirSync (path_dirname p) w))"

text \<open>
  The tags of the default renderer; \<open>dq\<close> is the double quote. A truthy
  \<open>devClientUrl\<close> is a non-empty string.
\<close>

definition dq :: string where
  "dq = [CHR 0x22]"

definition script_tag :: "string \<Rightarrow> string" where
  "script_tag url = ''<script type='' @ dq @ ''module'' @ dq @ '' src='' @ dq @ url @ dq @ ''></script>''"

definition link_tag :: "string \<Rightarrow> string" where
  "link_tag url = ''<link rel='' @ dq @ ''stylesheet'' @ dq @ '' href='' @ dq @ url @ dq @ ''>''"

definition defaultRender :: "DnnAscxRenderContext \<Rightarrow> string" where
  "defaultRender ctx =
     join [CHR 0x0A]
       ((case devClientUrl ctx of
           Some u \<Rightarrow> if mode ctx = Dev \<and> u \<noteq> [] then [script_tag u] else []
         | None \<Rightarrow> []) @
        map link_tag (cssUrls ctx) @
        [script_tag (jsUrl ctx)])"

definition render :: "DnnAscxPluginOptions \<Rightarrow> DnnAscxRenderContext \<Rightarrow> string" where
  "render opts = (case opt_render opts of None \<Rightarrow> defaultRender | Some f \<Rightarrow> f)"

text \<open>
  The replacer function of \<open>rewriteAscxForDev\<close>. Its state is the variable
  \<open>injectedClient\<close> of the enclosing call, and with it the contexts handed to the
  renderer so far, oldest first.
\<close>

definition rewriteAscxForDev_replacer ::
  "DnnAscxPluginOptions \<Rightarrow> string \<Rightarrow> string \<Rightarrow> string \<Rightarrow> rmatch \<Rightarrow>
   bool \<times> DnnAscxRenderContext list \<Rightarrow> string \<times> bool \<times> DnnAscxRenderContext list" where
  "rewriteAscxForDev_replacer opts cwd ascxAbs devOrigin r st =
     (case st of (injectedClient, calls) \<Rightarrow>
        (let entryFromMarker = m_group1 r;
             entry = strip_leading_slash entryFromMarker;
             jsUrl = devOrigin @ ''/'' @ entry;
             entryAbs = path_resolve cwd entryFromMarker;
             ctx = \<lparr>mode = Dev, ascxPath = ascxAbs, entryFromMarker = entryFromMarker,
                    entryAbs = entryAbs, jsUrl = jsUrl, cssUrls = [],
                    devClientUrl = (if injectedClient then None
                                    else Some (devOrigin @ ''/@vite/client'')),
                    chunk = None\<rparr>;
             html = render opts ctx
         in (html, (True, calls @ [ctx]))))"

text \<open>
  \<open>rewriteAscxForDev\<close>, with the contexts it handed to the renderer; the function of the
  source is the first component.
\<close>

definition rewriteAscxForDev_traced ::
  "DnnAscxPluginOptions \<Rightarrow> string \<Rightarrow> string \<Rightarrow> string \<Rightarrow> string \<Rightarrow>
   string \<times> DnnAscxRenderContext list" where
  "rewriteAscxForDev_traced opts cwd original ascxAbs devOrigin =
     (if \<not> regexp_test (marker opts) original then (original, [])
      else (case string_replace original (marker opts)
                   (rewriteAscxForDev_replacer opts cwd ascxAbs devOrigin) (False, []) of
              (out, (injectedClient, calls)) \<Rightarrow> (out, calls)))"

definition rewriteAscxForDev ::
  "DnnAscxPluginOptions \<Rightarrow> string \<Rightarrow> string \<Rightarrow> string \<Rightarrow> string \<Rightarrow> string" where
  "rewriteAscxForDev opts cwd original ascxAbs devOrigin =
     fst (rewriteAscxForDev_traced opts cwd original ascxAbs devOrigin)"

definition rewriteAscxForDev_calls ::
  "DnnAscxPluginOptions \<Rightarrow> string \<Rightarrow> string \<Rightarrow> string \<Rightarrow> string \<Rightarrow>
   DnnAscxRenderContext list" where
  "rewriteAscxForDev_calls opts cwd original ascxAbs devOrigin =
     snd (rewriteAscxForDev_traced opts cwd original ascxAbs devOrigin)"

text \<open>
  The loop of \<open>writeAllDevAscx\<close> over the tracked files, and the function itself. The
  first component of the result is the error thrown, if any, and the second the world at
  that point.
\<close>

fun writeAllDevAscx_loop ::
  "DnnAscxPluginOptions \<Rightarrow> string \<Rightarrow> string \<Rightarrow> string \<Rightarrow> string list \<Rightarrow> world \<Rightarrow>
   error option \<times> world" where
  "writeAllDevAscx_loop opts cwd devOutAbs devOrigin [] w = (None, w)"
| "writeAllDevAscx_loop opts cwd devOutAbs devOrigin (ascxAbs # rest) w =
     (case readFileSync w ascxAbs of
        Inl e \<Rightarrow> (Some e, w)
      | Inr original \<Rightarrow>
          (let rewritten = rewriteAscxForDev opts cwd original ascxAbs devOrigin
           in writeAllDevAscx_loop opts cwd devOutAbs devOrigin rest
                (writeMirrored opts cwd devOutAbs ascxAbs rewritten w)))"

definition writeAllDevAscx ::
  "DnnAscxPluginOptions \<Rightarrow> string \<Rightarrow> plugin_state \<Rightarrow> ViteDevServer \<Rightarrow> world \<Rightarrow>
   error option \<times> world" where
  "writeAllDevAscx opts cwd st server w =
     (let devOutAbs = path_resolve cwd (case devOutAscxDir opts of None \<Rightarrow> ''.dnn'' | Some d \<Rightarrow> d);
          devOrigin = computeDevOrigin opts server
      in writeAllDevAscx_loop opts cwd devOutAbs devOrigin (allAscxFiles st)
           (mkdirSync devOutAbs w))"

section \<open>The \<open>config\<close> hook\<close>

text \<open>
  \<open>inputs[key] = value\<close> on the plain object \<open>inputs\<close>, kept as the list of its own
  properties. Assigning a string to the key \<open>__proto__\<close> reaches the setter inherited
  from \<open>Object.prototype\<close>, which ignores it, and creates no property. The list is
  in the order of the first assignment to each key; the order in which the object
  enumerates its properties, integer-like keys first, is not part of it.
\<close>

fun assign :: "(string \<times> string) list \<Rightarrow> string \<Rightarrow> string \<Rightarrow> (string \<times> string) list" where
  "assign [] k v = [(k, v)]"
| "assign ((k', v') # kvs) k v = (if k' = k then (k, v) # kvs else (k', v') # assign kvs k v)"

definition object_set :: "(string \<times> string) list \<Rightarrow> string \<Rightarrow> string \<Rightarrow> (string \<times> string) list" where
  "object_set obj k v = (if k = ''__proto__'' then obj else assign obj k v)"

text \<open>
  The loop \<open>while ((m = marker.exec(content)))\<close> over one file, started with
  \<open>lastIndex = i\<close>. Each \<open>exec\<close> leaves \<open>lastIndex\<close> at the end of its match, so after
  an empty match the next \<open>exec\<close> finds the same match again and the loop never ends:
  the result is then \<open>None\<close>.
\<close>

function config_scan ::
  "DnnAscxPluginOptions \<Rightarrow> string \<Rightarrow> string \<Rightarrow> string \<Rightarrow> nat \<Rightarrow>
   (string \<times> string) list \<times> EntryRef list \<Rightarrow> ((string \<times> string) list \<times> EntryRef list) option" where
  "config_scan opts cwd fAbs content i acc =
     (case regexp_exec (marker opts) content i of
        None \<Rightarrow> Some acc
      | Some m \<Rightarrow>
          if m_all m = [] then None
          else
            (let inputs = fst acc;
                 refs = snd acc;
                 entryAbs = path_resolve cwd (m_group1 m);
                 key = non_word_to_underscore (path_relative cwd cwd entryAbs)
             in config_scan opts cwd fAbs content (m_index m + length (m_all m))
                  (object_set inputs key entryAbs,
                   refs @ [\<lparr>ref_ascxPath = fAbs, ref_entryAbs = entryAbs\<rparr>])))"
  by pat_completeness auto
termination
proof (relation "measure (\<lambda>(opts, cwd, fAbs, content, i, acc). Suc (length content) - i)",
    goal_cases)
  case 1
  show ?case by simp
next
  case (2 opts cwd fAbs content i acc m)
  from regexp_exec_bounds [OF 2(1)] 2(2) show ?case
    by (cases "m_all m") auto
qed

declare config_scan.simps [simp del]

text \<open>
  The loop over the tracked files: \<open>None\<close> when a scan never ends, otherwise the error
  thrown by a read, if any, with the inputs and references collected up to there.
\<close>

fun config_files ::
  "DnnAscxPluginOptions \<Rightarrow> string \<Rightarrow> world \<Rightarrow> string list \<Rightarrow>
   (string \<times> string) list \<times> EntryRef list \<Rightarrow>
   (error option \<times> (string \<times> string) list \<times> EntryRef list) option" where
  "config_files opts cwd w [] acc = Some (None, acc)"
| "config_files opts cwd w (fAbs # rest) acc =
     (case readFileSync w fAbs of
        Inl e \<Rightarrow> Some (Some e, acc)
      | Inr content \<Rightarrow>
          (case config_scan opts cwd fAbs content 0 acc of
             None \<Rightarrow> None
           | Some acc' \<Rightarrow> config_files opts cwd w rest acc'))"

text \<open>What the hook returns to Vite.\<close>

datatype config_result =
  WatchIgnored "string list" | RollupInput "(string \<times> string) list" | Nothing

text \<open>
  The hook. \<open>userOutDir\<close> is \<open>userConfig.build?.outDir\<close>, \<open>cmd\<close> is \<open>env.command\<close> and
  \<open>found\<close> what the file search returns for the configured patterns and the ignore list.
  The result is \<open>None\<close> when the hook never returns, otherwise the state of the closure
  with the error thrown or the value returned.
\<close>

definition config ::
  "DnnAscxPluginOptions \<Rightarrow> string \<Rightarrow> plugin_state \<Rightarrow> string option \<Rightarrow> command \<Rightarrow>
   (string list \<Rightarrow> string list) \<Rightarrow> world \<Rightarrow> (plugin_state \<times> (error + config_result)) option" where
  "config opts cwd st userOutDir cmd fg w =
     (let buildOutDir = (case userOutDir of None \<Rightarrow> ''dist'' | Some d \<Rightarrow> d);
          devOutDir = (case devOutAscxDir opts of None \<Rightarrow> ''.dnn'' | Some d \<Rightarrow> d);
          prodOutDir = outAscxDir opts;
          ignore = uniq (dirToIgnore (Some buildOutDir) @ dirToIgnore (Some devOutDir) @
                         dirToIgnore prodOutDir @ [''**/node_modules/**'', ''**/.git/**'']);
          allAscxFiles = map norm (fg ignore);
          st1 = st\<lparr>allAscxFiles := allAscxFiles, buildOutDir := buildOutDir,
                   devOutDir := devOutDir, prodOutDir := prodOutDir, ignore := ignore\<rparr>
      in case cmd of
           CmdServe \<Rightarrow> Some (st1, Inr (WatchIgnored ignore))
         | CmdBuild \<Rightarrow>
             (case config_files opts cwd w allAscxFiles ([], []) of
                None \<Rightarrow> None
              | Some (thrown, acc) \<Rightarrow>
                  (let inputs = fst acc;
                       st2 = st1\<lparr>refs := snd acc\<rparr>
                   in case thrown of
                        Some e \<Rightarrow> Some (st2, Inl e)
                      | None \<Rightarrow>
                          if requireAtLeastOneEntry opts = Some True \<and> inputs = []
                          then Some (st2, Inl (Error ''No @vite:entry markers found in ascx files.''))
                          else if inputs = [] then Some (st2, Inr Nothing)
                          else Some (st2, Inr (RollupInput inputs)))))"

section \<open>The dev server hooks\<close>

text \<open>
  \<open>configureServer\<close> writes every tracked file once and registers the three handlers
  below on the watcher.
\<close>

definition configureServer ::
  "DnnAscxPluginOptions \<Rightarrow> string \<Rightarrow> plugin_state \<Rightarrow> ViteDevServer \<Rightarrow> world \<Rightarrow>
   error option \<times> world" where
  "configureServer opts cwd st server w = writeAllDevAscx opts cwd st server w"

definition onChange ::
  "DnnAscxPluginOptions \<Rightarrow> string \<Rightarrow> ResolvedConfig \<Rightarrow> ViteDevServer \<Rightarrow> plugin_state \<Rightarrow>
   string \<Rightarrow> world \<Rightarrow> error option \<times> world" where
  "onChange opts cwd cfg server st file w =
     (let abs = absPath cwd (toLowerCase file);
          absPublicDir = absPath cwd (toLowerCase (publicDir cfg)) @ ''/''
      in if prefix absPublicDir abs then
           (case readFileSync w abs of
              Inl e \<Rightarrow> (Some e, w)
            | Inr original \<Rightarrow>
                (let dirWithoutPublicDir = absPath cwd (remove_first absPublicDir abs)
                 in (None, reload (writeMirrored opts cwd (absPath cwd (devOutDir st))
                                     dirWithoutPublicDir original w))))
         else if suffix ''.ascx'' abs then
           (if abs \<notin> set (allAscxFiles st) then (None, w)
            else
              (let devOrigin = computeDevOrigin opts server
               in case readFileSync w abs of
                    Inl e \<Rightarrow> (Some e, w)
                  | Inr original \<Rightarrow>
                      (let rewritten = rewriteAscxForDev opts cwd original abs devOrigin
                       in (None, reload (writeMirrored opts cwd (absPath cwd (devOutDir st))
                                           abs rewritten w)))))
         else (None, w))"

text \<open>
  The handlers of \<open>add\<close> and \<open>unlink\<close>; \<open>fg\<close> is the file search, given the ignore
  list.
\<close>

definition onAdd ::
  "DnnAscxPluginOptions \<Rightarrow> string \<Rightarrow> ViteDevServer \<Rightarrow> (string list \<Rightarrow> string list) \<Rightarrow>
   plugin_state \<Rightarrow> string \<Rightarrow> world \<Rightarrow> error option \<times> plugin_state \<times> world" where
  "onAdd opts cwd server fg st file w =
     (if suffix ''.ascx'' (toLowerCase file) then
        (let st' = st\<lparr>allAscxFiles := map norm (fg (ignore st))\<rparr>
         in case writeAllDevAscx opts cwd st' server w of
              (Some e, w') \<Rightarrow> (Some e, st', w')
            | (None, w') \<Rightarrow> (None, st', reload w'))
      else (None, st, w))"

definition onUnlink ::
  "DnnAscxPluginOptions \<Rightarrow> string \<Rightarrow> ViteDevServer \<Rightarrow> (string list \<Rightarrow> string list) \<Rightarrow>
   plugin_state \<Rightarrow> string \<Rightarrow> world \<Rightarrow> error option \<times> plugin_state \<times> world" where
  "onUnlink opts cwd server fg st file w =
     (if suffix ''.ascx'' (toLowerCase file) then
        (let st' = st\<lparr>allAscxFiles := map norm (fg (ignore st))\<rparr>
         in case writeAllDevAscx opts cwd st' server w of
              (Some e, w') \<Rightarrow> (Some e, st', w')
            | (None, w') \<Rightarrow> (None, st', reload w'))
      else (None, st, w))"

text \<open>The events of the watcher, and the handler that each one reaches.\<close>

datatype watch_event = Change string | Add string | Unlink string

fun handle_event ::
  "DnnAscxPluginOptions \<Rightarrow> string \<Rightarrow> ResolvedConfig \<Rightarrow> ViteDevServer \<Rightarrow>
   (string list \<Rightarrow> string list) \<Rightarrow> plugin_state \<Rightarrow> watch_event \<Rightarrow> world \<Rightarrow>
   error option \<times> plugin_state \<times> world" where
  "handle_event opts cwd cfg server fg st (Change file) w =
     (case onChange opts cwd cfg server st file w of (e, w') \<Rightarrow> (e, st, w'))"
| "handle_event opts cwd cfg server fg st (Add file) w = onAdd opts cwd server fg st file w"
| "handle_event opts cwd cfg server fg st (Unlink file) w = onUnlink opts cwd server fg st file w"

section \<open>The \<open>generateBundle\<close> hook\<close>

text \<open>
  The replacer function of the build rewrite; its state is the list of the contexts handed
  to the renderer so far.
\<close>

definition generateBundle_replacer ::
  "DnnAscxPluginOptions \<Rightarrow> string \<Rightarrow> ResolvedConfig \<Rightarrow> OutputBundle \<Rightarrow> string \<Rightarrow> rmatch \<Rightarrow>
   DnnAscxRenderContext list \<Rightarrow> string \<times> DnnAscxRenderContext list" where
  "generateBundle_replacer opts cwd cfg bundle fAbs r calls =
     (let entryFromMarker = m_group1 r;
          entryAbs = path_resolve cwd entryFromMarker
      in case getChunkBySourceEntry cwd bundle entryAbs of
           None \<Rightarrow> (''<!-- vite:missing-entry '' @ entryFromMarker @ '' -->'', calls)
         | Some c \<Rightarrow>
             (let jsUrl = toPublicUrl opts cfg (fileName c);
                  cssUrls = (case importedCss c of
                               None \<Rightarrow> []
                             | Some md \<Rightarrow> map (toPublicUrl opts cfg) md);
                  ctx = \<lparr>mode = Build, ascxPath = fAbs, entryFromMarker = entryFromMarker,
                         entryAbs = entryAbs, jsUrl = jsUrl, cssUrls = cssUrls,
                         devClientUrl = None, chunk = Some c\<rparr>
              in (render opts ctx, calls @ [ctx])))"

text \<open>
  The value of \<open>rewritten\<close> for one file that has a marker, with the contexts handed to
  the renderer.
\<close>

definition generateBundle_rewritten_traced ::
  "DnnAscxPluginOptions \<Rightarrow> string \<Rightarrow> ResolvedConfig \<Rightarrow> OutputBundle \<Rightarrow> string \<Rightarrow> string \<Rightarrow>
   string \<times> DnnAscxRenderContext list" where
  "generateBundle_rewritten_traced opts cwd cfg bundle fAbs original =
     string_replace original (marker opts) (generateBundle_replacer opts cwd cfg bundle fAbs) []"

definition generateBundle_rewritten ::
  "DnnAscxPluginOptions \<Rightarrow> string \<Rightarrow> ResolvedConfig \<Rightarrow> OutputBundle \<Rightarrow> string \<Rightarrow> string \<Rightarrow> string" where
  "generateBundle_rewritten opts cwd cfg bundle fAbs original =
     fst (generateBundle_rewritten_traced opts cwd cfg bundle fAbs original)"

definition generateBundle_calls ::
  "DnnAscxPluginOptions \<Rightarrow> string \<Rightarrow> ResolvedConfig \<Rightarrow> OutputBundle \<Rightarrow> string \<Rightarrow> string \<Rightarrow>
   DnnAscxRenderContext list" where
  "generateBundle_calls opts cwd cfg bundle fAbs original =
     snd (generateBundle_rewritten_traced opts cwd cfg bundle fAbs original)"

fun generateBundle_loop ::
  "DnnAscxPluginOptions \<Rightarrow> string \<Rightarrow> ResolvedConfig \<Rightarrow> OutputBundle \<Rightarrow> string \<Rightarrow> string list \<Rightarrow>
   world \<Rightarrow> error option \<times> world" where
  "generateBundle_loop opts cwd cfg bundle outDir [] w = (None, w)"
| "generateBundle_loop opts cwd cfg bundle outDir (fAbs # rest) w =
     (case readFileSync w fAbs of
        Inl e \<Rightarrow> (Some e, w)
      | Inr original \<Rightarrow>
          (let hasMarker = regexp_test (marker opts) original
           in if \<not> hasMarker
              then generateBundle_loop opts cwd cfg bundle outDir rest
                     (writeMirrored opts cwd outDir fAbs original w)
              else
                (let rewritten = generateBundle_rewritten opts cwd cfg bundle fAbs original
                 in generateBundle_loop opts cwd cfg bundle outDir rest
                      (writeMirrored opts cwd outDir fAbs rewritten w))))"

definition generateBundle ::
  "DnnAscxPluginOptions \<Rightarrow> string \<Rightarrow> ResolvedConfig \<Rightarrow> plugin_state \<Rightarrow> OutputBundle \<Rightarrow> world \<Rightarrow>
   error option \<times> world" where
  "generateBundle opts cwd cfg st bundle w =
     (if command cfg \<noteq> CmdBuild then (None, w)
      else
        (let outDir = path_resolve cwd
                        (case outAscxDir opts of None \<Rightarrow> build_outDir cfg | Some d \<Rightarrow> d)
         in generateBundle_loop opts cwd cfg bundle outDir (allAscxFiles st)
              (mkdirSync outDir w)))"

section \<open>Vocabulary of the properties\<close>

text \<open>
  \<open>weave gaps xs\<close> is the text \<open>gap\<^sub>0 x\<^sub>1 gap\<^sub>1 \<dots> x\<^sub>n gap\<^sub>n\<close>. The gaps of a text
  with respect to its matches are the pieces before, between and after the matches;
  a list of matches is well placed from a position on when each match is the piece of the
  text at its index and starts no earlier than the end of the match before it.
  \<open>replacements\<close> and \<open>final_state\<close> run a replacer function over the matches in
  order.
\<close>

fun weave :: "string list \<Rightarrow> string list \<Rightarrow> string" where
  "weave [] xs = []"
| "weave (g # gs) [] = g"
| "weave (g # gs) (x # xs) = g @ x @ weave gs xs"

fun gaps_from :: "string \<Rightarrow> nat \<Rightarrow> rmatch list \<Rightarrow> string list" where
  "gaps_from s nsp [] = [drop nsp s]"
| "gaps_from s nsp (r # rs) =
     take (m_index r - nsp) (drop nsp s) # gaps_from s (m_index r + length (m_all r)) rs"

fun well_placed :: "string \<Rightarrow> nat \<Rightarrow> rmatch list \<Rightarrow> bool" where
  "well_placed s nsp [] = True"
| "well_placed s nsp (r # rs) =
     (nsp \<le> m_index r \<and> m_all r = take (length (m_all r)) (drop (m_index r) s) \<and>
      well_placed s (m_index r + length (m_all r)) rs)"

fun replacements :: "(rmatch \<Rightarrow> 'st \<Rightarrow> string \<times> 'st) \<Rightarrow> 'st \<Rightarrow> rmatch list \<Rightarrow> string list" where
  "replacements cb st [] = []"
| "replacements cb st (r # rs) = fst (cb r st) # replacements cb (snd (cb r st)) rs"

fun final_state :: "(rmatch \<Rightarrow> 'st \<Rightarrow> string \<times> 'st) \<Rightarrow> 'st \<Rightarrow> rmatch list \<Rightarrow> 'st" where
  "final_state cb st [] = st"
| "final_state cb st (r # rs) = final_state cb (snd (cb r st)) rs"

text \<open>
  The render context the specification describes for one marker occurrence of the dev
  rewrite (\<open>first\<close> says whether it is the first occurrence of the file) and of the
  build rewrite (for the chunk found), and the comment that stands for a marker without
  a chunk. \<open>entry_chunk\<close> is the entry chunk whose module is the one the marker names.
\<close>

definition expected_dev_context ::
  "string \<Rightarrow> string \<Rightarrow> string \<Rightarrow> bool \<Rightarrow> rmatch \<Rightarrow> DnnAscxRenderContext" where
  "expected_dev_context cwd ascxAbs devOrigin first r =
     \<lparr>mode = Dev, ascxPath = ascxAbs, entryFromMarker = m_group1 r,
      entryAbs = path_resolve cwd (m_group1 r),
      jsUrl = devOrigin @ ''/'' @ strip_leading_slash (m_group1 r), cssUrls = [],
      devClientUrl = (if first then Some (devOrigin @ ''/@vite/client'') else None),
      chunk = None\<rparr>"

fun expected_dev_contexts ::
  "string \<Rightarrow> string \<Rightarrow> string \<Rightarrow> rmatch list \<Rightarrow> DnnAscxRenderContext list" where
  "expected_dev_contexts cwd ascxAbs devOrigin [] = []"
| "expected_dev_contexts cwd ascxAbs devOrigin (r # rs) =
     expected_dev_context cwd ascxAbs devOrigin True r #
     map (expected_dev_context cwd ascxAbs devOrigin False) rs"

definition missing_entry_comment :: "string \<Rightarrow> string" where
  "missing_entry_comment ref = ''<!-- vite:missing-entry '' @ ref @ '' -->''"

definition entry_chunk :: "string \<Rightarrow> OutputBundle \<Rightarrow> rmatch \<Rightarrow> OutputChunk option" where
  "entry_chunk cwd bundle r = getChunkBySourceEntry cwd bundle (path_resolve cwd (m_group1 r))"

definition expected_build_context ::
  "DnnAscxPluginOptions \<Rightarrow> string \<Rightarrow> ResolvedConfig \<Rightarrow> string \<Rightarrow> rmatch \<Rightarrow> OutputChunk \<Rightarrow>
   DnnAscxRenderContext" where
  "expected_build_context opts cwd cfg fAbs r c =
     \<lparr>mode = Build, ascxPath = fAbs, entryFromMarker = m_group1 r,
      entryAbs = path_resolve cwd (m_group1 r),
      jsUrl = toPublicUrl opts cfg (fileName c),
      cssUrls = (case importedCss c of None \<Rightarrow> [] | Some md \<Rightarrow> map (toPublicUrl opts cfg) md),
      devClientUrl = None, chunk = Some c\<rparr>"

definition expected_build_replacement ::
  "DnnAscxPluginOptions \<Rightarrow> string \<Rightarrow> ResolvedConfig \<Rightarrow> OutputBundle \<Rightarrow> string \<Rightarrow> rmatch \<Rightarrow> string" where
  "expected_build_replacement opts cwd cfg bundle fAbs r =
     (case entry_chunk cwd bundle r of
        None \<Rightarrow> missing_entry_comment (m_group1 r)
      | Some c \<Rightarrow> render opts (expected_build_context opts cwd cfg fAbs r c))"

fun expected_build_contexts ::
  "DnnAscxPluginOptions \<Rightarrow> string \<Rightarrow> ResolvedConfig \<Rightarrow> OutputBundle \<Rightarrow> string \<Rightarrow> rmatch list \<Rightarrow>
   DnnAscxRenderContext list" where
  "expected_build_contexts opts cwd cfg bundle fAbs [] = []"
| "expected_build_contexts opts cwd cfg bundle fAbs (r # rs) =
     (case entry_chunk cwd bundle r of
        None \<Rightarrow> expected_build_contexts opts cwd cfg bundle fAbs rs
      | Some c \<Rightarrow> expected_build_context opts cwd cfg fAbs r c #
                  expected_build_contexts opts cwd cfg bundle fAbs rs)"

text \<open>
  The public base that \<open>toPublicUrl\<close> reads, and the URL with exactly one separator
  between what is left of a base without the separators at its end and what is left of a
  name without the separators at its start.
\<close>

definition public_base :: "DnnAscxPluginOptions \<Rightarrow> ResolvedConfig \<Rightarrow> string" where
  "public_base opts cfg =
     (case publicBase opts of
        Some b \<Rightarrow> b
      | None \<Rightarrow> (case base cfg of Some b \<Rightarrow> b | None \<Rightarrow> ''/''))"

definition one_separator_url :: "string \<Rightarrow> string \<Rightarrow> string" where
  "one_separator_url b p = strip_trailing_slashes b @ [slash] @ dropWhile (\<lambda>c. c = slash) p"

text \<open>
  A path lies inside a root when it is absolute exactly if the root is, its segments start
  with the normalised segments of the root, and what follows them is at least one segment,
  each of them a plain name: the root itself does not lie inside the root. A plain segment
  is a name: not empty, not \<open>.\<close>, not \<open>..\<close>, and without a separator.
\<close>

definition root_segments :: "string \<Rightarrow> string list" where
  "root_segments d = normalize_segments (\<not> path_isAbsolute d) [] (split_slash d)"

definition plain_segment :: "string \<Rightarrow> bool" where
  "plain_segment x = (x \<noteq> [] \<and> x \<noteq> ''.'' \<and> x \<noteq> ''..'' \<and> slash \<notin> set x)"

definition segment :: "string \<Rightarrow> bool" where
  "segment x = (x \<noteq> [] \<and> slash \<notin> set x)"

definition inside :: "string \<Rightarrow> string \<Rightarrow> bool" where
  "inside outDir p =
     (path_isAbsolute p = path_isAbsolute outDir \<and>
      prefix (root_segments outDir) (path_segments p) \<and>
      (let names = drop (length (root_segments outDir)) (path_segments p)
       in names \<noteq> [] \<and> list_all plain_segment names))"

text \<open>The paths written, in order, among a list of effects.\<close>

fun written_paths :: "effect list \<Rightarrow> string list" where
  "written_paths [] = []"
| "written_paths (WriteFileSync p c # es) = p # written_paths es"
| "written_paths (e # es) = written_paths es"

text \<open>The files written, in order, each with the text written to it.\<close>

fun written :: "effect list \<Rightarrow> (string \<times> string) list" where
  "written [] = []"
| "written (WriteFileSync p c # es) = (p, c) # written es"
| "written (e # es) = written es"

text \<open>
  What a hook has to write that reads each tracked file in turn, rewrites the text read and
  mirrors the result: the mirrored path and the rewritten text of each file, read from the
  files as the writes before it have left them, up to the first file that cannot be read.
\<close>

fun mirrored_writes ::
  "(string \<Rightarrow> string \<Rightarrow> string) \<Rightarrow> (string \<Rightarrow> string) \<Rightarrow> (string \<Rightarrow> string option) \<Rightarrow>
   string list \<Rightarrow> (string \<times> string) list" where
  "mirrored_writes rewrite mirror fs [] = []"
| "mirrored_writes rewrite mirror fs (f # rest) =
     (case fs f of
        None \<Rightarrow> []
      | Some original \<Rightarrow>
          (mirror f, rewrite f original) #
          mirrored_writes rewrite mirror (fs(mirror f \<mapsto> rewrite f original)) rest)"

text \<open>Options that leave every choice to its default, and other values for the examples.\<close>

definition example_options :: DnnAscxPluginOptions where
  "example_options =
     \<lparr>ascxGlobs = [''**/*.ascx''], outAscxDir = None, opt_marker = None, publicBase = None,
      devOutAscxDir = None, opt_devOrigin = None, opt_ascxRootDir = None,
      requireAtLeastOneEntry = None, opt_render = None\<rparr>"

definition example_config :: ResolvedConfig where
  "example_config =
     \<lparr>command = CmdBuild, base = Some ''/'', publicDir = ''/proj/public'', build_outDir = ''dist''\<rparr>"

definition example_state :: plugin_state where
  "example_state =
     \<lparr>allAscxFiles = [''/proj/a.ascx'', ''/proj/sub/b.ascx''], refs = [], buildOutDir = ''dist'',
      devOutDir = ''.dnn'', prodOutDir = None, ignore = []\<rparr>"

definition example_world :: world where
  "example_world =
     \<lparr>files = [''/proj/a.ascx'' \<mapsto> ''a<!-- @vite:entry x.js -->b<!--@vite:entry /y.js-->'',
               ''/proj/sub/b.ascx'' \<mapsto> ''<p>plain</p>''],
      trace = []\<rparr>"

definition example_text :: string where
  "example_text = ''a<!-- @vite:entry x.js -->b<!--@vite:entry /y.js-->''"

definition example_bundle :: OutputBundle where
  "example_bundle =
     [Asset ''assets/x.css'',
      Chunk \<lparr>isEntry = True, facadeModuleId = Some ''/proj/x.js'', fileName = ''assets/x.123.js'',
             importedCss = Some [''assets/x.css'']\<rparr>]"

definition example_server :: ViteDevServer where
  "example_server = \<lparr>server_origin = None, server_port = None\<rparr>"

text \<open>
  The example options with a renderer that returns the URL of the script alone, and a file
  system that holds one file, whose name has capital letters.
\<close>

definition example_render_options :: DnnAscxPluginOptions where
  "example_render_options = example_options\<lparr>opt_render := Some jsUrl\<rparr>"

definition capital_world :: world where
  "capital_world = \<lparr>files = [''/proj/Skins/Home.ascx'' \<mapsto> ''<p>plain</p>''], trace = []\<rparr>"

section \<open>Replacing the matches of a pattern\<close>

lemma length_gaps_from: "length (gaps_from s nsp rs) = Suc (length rs)"
  by (induction rs arbitrary: nsp) auto

lemma well_placed_mono: "well_placed s i rs \<Longrightarrow> nsp \<le> i \<Longrightarrow> well_placed s nsp rs"
  by (cases rs) auto

lemma regexp_exec_all:
  "regexp_exec pat s i = Some r \<Longrightarrow> m_all r = take (length (m_all r)) (drop (m_index r) s)"
proof (induction pat s i rule: regexp_exec.induct)
  case (1 pat s i)
  show ?case
  proof (cases "length s < i")
    case True
    with "1.prems" show ?thesis by (simp add: regexp_exec.simps)
  next
    case inb: False
    show ?thesis
    proof (cases "pat s i")
      case None
      with inb "1.prems" have "regexp_exec pat s (Suc i) = Some r"
        by (simp add: regexp_exec.simps [of pat s i])
      with "1.IH" inb None show ?thesis by fastforce
    next
      case (Some a)
      with inb "1.prems" show ?thesis
        by (cases a) (auto simp: regexp_exec.simps [of pat s i] min_def)
    qed
  qed
qed

lemma well_placed_results: "well_placed s i (replace_results pat s i)"
proof (induction pat s i rule: replace_results.induct)
  case (1 pat s i)
  show ?case
  proof (cases "regexp_exec pat s i")
    case None
    then show ?thesis by (simp add: replace_results.simps [of pat s i])
  next
    case (Some r)
    let ?e = "m_index r + length (m_all r)"
    let ?next = "if m_all r = [] then Suc ?e else ?e"
    from "1.IH" [OF Some] have "well_placed s ?next (replace_results pat s ?next)"
      by (simp add: Let_def)
    then have "well_placed s ?e (replace_results pat s ?next)"
      by (rule well_placed_mono) simp
    with Some regexp_exec_bounds [OF Some] regexp_exec_all [OF Some] show ?thesis
      by (simp add: replace_results.simps [of pat s i] Let_def)
  qed
qed

lemma replace_emit_weave:
  "well_placed s nsp rs \<Longrightarrow>
   replace_emit s cb nsp st rs =
     (weave (gaps_from s nsp rs) (replacements cb st rs), final_state cb st rs)"
  by (induction rs arbitrary: nsp st) (auto split: prod.splits)

lemma drop_weave:
  "well_placed s nsp rs \<Longrightarrow> drop nsp s = weave (gaps_from s nsp rs) (map m_all rs)"
proof (induction rs arbitrary: nsp)
  case Nil
  then show ?case by simp
next
  case (Cons r rs)
  from Cons.prems have le: "nsp \<le> m_index r"
    and sub: "m_all r = take (length (m_all r)) (drop (m_index r) s)"
    and wp: "well_placed s (m_index r + length (m_all r)) rs" by simp_all
  have "drop nsp s = take (m_index r - nsp) (drop nsp s) @ drop (m_index r - nsp) (drop nsp s)"
    by (rule append_take_drop_id [symmetric])
  also from le have "drop (m_index r - nsp) (drop nsp s) = drop (m_index r) s" by simp
  also have "drop (m_index r) s =
      take (length (m_all r)) (drop (m_index r) s) @ drop (length (m_all r)) (drop (m_index r) s)"
    by (rule append_take_drop_id [symmetric])
  also have "drop (length (m_all r)) (drop (m_index r) s) = drop (m_index r + length (m_all r)) s"
    by (simp add: add.commute)
  finally show ?case using sub Cons.IH [OF wp] by simp
qed

lemma string_replace_weave:
  "string_replace s pat cb st =
     (weave (gaps_from s 0 (replace_results pat s 0)) (replacements cb st (replace_results pat s 0)),
      final_state cb st (replace_results pat s 0))"
  by (simp add: string_replace_def replace_emit_weave well_placed_results)

lemma original_weave:
  "s = weave (gaps_from s 0 (replace_results pat s 0)) (map m_all (replace_results pat s 0))"
  using drop_weave [OF well_placed_results [of s 0 pat]] by simp

lemma regexp_exec_None_iff:
  "regexp_exec pat s i = None \<longleftrightarrow> (\<forall>j. i \<le> j \<and> j \<le> length s \<longrightarrow> pat s j = None)"
proof (induction pat s i rule: regexp_exec.induct)
  case (1 pat s i)
  show ?case
  proof (cases "length s < i")
    case True
    then show ?thesis by (auto simp: regexp_exec.simps [of pat s i])
  next
    case inb: False
    show ?thesis
    proof (cases "pat s i")
      case None
      with inb have "regexp_exec pat s i = regexp_exec pat s (Suc i)"
        by (simp add: regexp_exec.simps [of pat s i])
      moreover from "1.IH" inb None
      have "regexp_exec pat s (Suc i) = None \<longleftrightarrow> (\<forall>j. Suc i \<le> j \<and> j \<le> length s \<longrightarrow> pat s j = None)"
        by simp
      moreover have "(\<forall>j. Suc i \<le> j \<and> j \<le> length s \<longrightarrow> pat s j = None) \<longleftrightarrow>
                     (\<forall>j. i \<le> j \<and> j \<le> length s \<longrightarrow> pat s j = None)"
        using None by (metis Suc_leD Suc_leI le_neq_implies_less)
      ultimately show ?thesis by simp
    next
      case (Some a)
      with inb show ?thesis
        by (cases a) (auto simp: regexp_exec.simps [of pat s i])
    qed
  qed
qed

section \<open>The replacer functions\<close>

lemma dev_replacer_step:
  "rewriteAscxForDev_replacer opts cwd a d r (b, cs) =
     (render opts (expected_dev_context cwd a d (\<not> b) r),
      (True, cs @ [expected_dev_context cwd a d (\<not> b) r]))"
  by (simp add: rewriteAscxForDev_replacer_def expected_dev_context_def Let_def)

lemma replacements_logged:
  assumes "\<And>r cs. cb r (b, cs) = (g r, (b, cs @ h r))"
  shows "replacements cb (b, cs) rs = map g rs \<and>
         final_state cb (b, cs) rs = (b, cs @ concat (map h rs))"
  by (induction rs arbitrary: cs) (simp_all add: assms)

lemma dev_replacer_injected:
  "replacements (rewriteAscxForDev_replacer opts cwd a d) (True, cs) rs =
     map (render opts) (map (expected_dev_context cwd a d False) rs) \<and>
   final_state (rewriteAscxForDev_replacer opts cwd a d) (True, cs) rs =
     (True, cs @ map (expected_dev_context cwd a d False) rs)"
proof -
  have "concat (map (\<lambda>r. [expected_dev_context cwd a d False r]) rs) =
        map (expected_dev_context cwd a d False) rs"
    by (induction rs) simp_all
  with replacements_logged [of "rewriteAscxForDev_replacer opts cwd a d" True
      "\<lambda>r. render opts (expected_dev_context cwd a d False r)"
      "\<lambda>r. [expected_dev_context cwd a d False r]" cs rs]
  show ?thesis by (simp add: dev_replacer_step comp_def)
qed

lemma dev_replacer_run:
  "replacements (rewriteAscxForDev_replacer opts cwd a d) (False, []) rs =
     map (render opts) (expected_dev_contexts cwd a d rs) \<and>
   final_state (rewriteAscxForDev_replacer opts cwd a d) (False, []) rs =
     (rs \<noteq> [], expected_dev_contexts cwd a d rs)"
  by (cases rs) (simp_all add: dev_replacer_step dev_replacer_injected)

lemma replace_results_no_match:
  "regexp_exec pat s 0 = None \<Longrightarrow> replace_results pat s 0 = []"
  by (simp add: replace_results.simps [of pat s 0])

lemma rewriteAscxForDev_traced_eq:
  "rewriteAscxForDev_traced opts cwd s a d =
     (weave (gaps_from s 0 (replace_results (marker opts) s 0))
        (map (render opts) (expected_dev_contexts cwd a d (replace_results (marker opts) s 0))),
      expected_dev_contexts cwd a d (replace_results (marker opts) s 0))"
proof (cases "regexp_test (marker opts) s")
  case True
  then show ?thesis
    by (simp add: rewriteAscxForDev_traced_def string_replace_weave dev_replacer_run)
next
  case False
  then have "replace_results (marker opts) s 0 = []"
    by (simp add: regexp_test_def replace_results_no_match)
  with False show ?thesis by (simp add: rewriteAscxForDev_traced_def)
qed

lemma build_replacer_step:
  "generateBundle_replacer opts cwd cfg bundle f r cs =
     (expected_build_replacement opts cwd cfg bundle f r,
      cs @ expected_build_contexts opts cwd cfg bundle f [r])"
  by (simp add: generateBundle_replacer_def expected_build_replacement_def entry_chunk_def
      expected_build_context_def missing_entry_comment_def Let_def split: option.splits)

lemma replacements_appended:
  assumes "\<And>r cs. cb r cs = (g r, cs @ h r)"
  shows "replacements cb cs rs = map g rs \<and> final_state cb cs rs = cs @ concat (map h rs)"
  by (induction rs arbitrary: cs) (simp_all add: assms)

lemma expected_build_contexts_concat:
  "expected_build_contexts opts cwd cfg bundle f rs =
     concat (map (\<lambda>r. expected_build_contexts opts cwd cfg bundle f [r]) rs)"
  by (induction rs) (simp_all split: option.splits)

lemma build_replacer_run:
  "replacements (generateBundle_replacer opts cwd cfg bundle f) cs rs =
     map (expected_build_replacement opts cwd cfg bundle f) rs \<and>
   final_state (generateBundle_replacer opts cwd cfg bundle f) cs rs =
     cs @ expected_build_contexts opts cwd cfg bundle f rs"
  using replacements_appended [of "generateBundle_replacer opts cwd cfg bundle f"
      "expected_build_replacement opts cwd cfg bundle f"
      "\<lambda>r. expected_build_contexts opts cwd cfg bundle f [r]" cs rs]
    expected_build_contexts_concat [of opts cwd cfg "bundle" f rs]
  by (simp only: build_replacer_step)

lemma generateBundle_rewritten_traced_eq:
  "generateBundle_rewritten_traced opts cwd cfg bundle f s =
     (weave (gaps_from s 0 (replace_results (marker opts) s 0))
        (map (expected_build_replacement opts cwd cfg bundle f) (replace_results (marker opts) s 0)),
      expected_build_contexts opts cwd cfg bundle f (replace_results (marker opts) s 0))"
  by (simp add: generateBundle_rewritten_traced_def string_replace_weave build_replacer_run)

lemma replace_results_ge:
  "r \<in> set (replace_results pat s i) \<Longrightarrow> i \<le> m_index r"
proof (induction pat s i rule: replace_results.induct)
  case (1 pat s i)
  show ?case
  proof (cases "regexp_exec pat s i")
    case None
    with "1.prems" show ?thesis by (simp add: replace_results.simps [of pat s i])
  next
    case (Some r0)
    let ?next = "let e = m_index r0 + length (m_all r0) in if m_all r0 = [] then Suc e else e"
    from "1.prems" Some have "r = r0 \<or> r \<in> set (replace_results pat s ?next)"
      by (simp add: replace_results.simps [of pat s i])
    then show ?thesis
    proof
      assume "r = r0"
      with regexp_exec_bounds [OF Some] show ?thesis by simp
    next
      assume "r \<in> set (replace_results pat s ?next)"
      from "1.IH" [OF Some this] regexp_exec_bounds [OF Some] show ?thesis
        by (simp add: Let_def split: if_splits)
    qed
  qed
qed

lemma replace_results_sorted:
  "sorted_wrt (\<lambda>a b. m_index a < m_index b) (replace_results pat s i)"
proof (induction pat s i rule: replace_results.induct)
  case (1 pat s i)
  show ?case
  proof (cases "regexp_exec pat s i")
    case None
    then show ?thesis by (simp add: replace_results.simps [of pat s i])
  next
    case (Some r0)
    let ?next = "let e = m_index r0 + length (m_all r0) in if m_all r0 = [] then Suc e else e"
    have "m_index r0 < m_index r" if "r \<in> set (replace_results pat s ?next)" for r
      using replace_results_ge [OF that] by (cases "m_all r0") (simp_all add: Let_def)
    with "1.IH" [OF Some] Some show ?thesis
      by (simp add: replace_results.simps [of pat s i])
  qed
qed

lemma regexp_exec_sound:
  "regexp_exec pat s i = Some r \<Longrightarrow>
   \<exists>n. pat s (m_index r) = Some (n, m_group1 r) \<and> m_all r = take n (drop (m_index r) s)"
proof (induction pat s i rule: regexp_exec.induct)
  case (1 pat s i)
  show ?case
  proof (cases "length s < i")
    case True
    with "1.prems" show ?thesis by (simp add: regexp_exec.simps)
  next
    case inb: False
    show ?thesis
    proof (cases "pat s i")
      case None
      with inb "1.prems" have "regexp_exec pat s (Suc i) = Some r"
        by (simp add: regexp_exec.simps [of pat s i])
      with "1.IH" inb None show ?thesis by fastforce
    next
      case (Some a)
      with inb "1.prems" show ?thesis
        by (cases a) (auto simp: regexp_exec.simps [of pat s i])
    qed
  qed
qed

lemma replace_results_sound:
  "r \<in> set (replace_results pat s i) \<Longrightarrow>
   m_index r \<le> length s \<and>
   (\<exists>n. pat s (m_index r) = Some (n, m_group1 r) \<and> m_all r = take n (drop (m_index r) s))"
proof (induction pat s i rule: replace_results.induct)
  case (1 pat s i)
  show ?case
  proof (cases "regexp_exec pat s i")
    case None
    with "1.prems" show ?thesis by (simp add: replace_results.simps [of pat s i])
  next
    case (Some r0)
    let ?next = "let e = m_index r0 + length (m_all r0) in if m_all r0 = [] then Suc e else e"
    from "1.prems" Some have "r = r0 \<or> r \<in> set (replace_results pat s ?next)"
      by (simp add: replace_results.simps [of pat s i])
    then show ?thesis
    proof
      assume "r = r0"
      with regexp_exec_bounds [OF Some] regexp_exec_sound [OF Some] show ?thesis by simp
    next
      assume "r \<in> set (replace_results pat s ?next)"
      from "1.IH" [OF Some this] show ?thesis .
    qed
  qed
qed

section \<open>The loops over the tracked files\<close>

lemma written_paths_append: "written_paths (es @ fs) = written_paths es @ written_paths fs"
  by (induction es rule: written_paths.induct) simp_all

lemma trace_writeMirrored:
  "trace (writeMirrored opts cwd outDir a c w) =
     trace w @ [MkdirSync (path_dirname (outPath opts cwd outDir a)),
                WriteFileSync (outPath opts cwd outDir a) c]"
  by (simp add: writeMirrored_def writeFileSync_def mkdirSync_def Let_def)

lemma files_writeMirrored:
  "files (writeMirrored opts cwd outDir a c w) = (files w)(outPath opts cwd outDir a \<mapsto> c)"
  by (simp add: writeMirrored_def writeFileSync_def mkdirSync_def Let_def)

lemma config_scan_refs:
  "config_scan opts cwd f s i acc = Some acc' \<Longrightarrow>
   map ref_entryAbs (snd acc') =
     map ref_entryAbs (snd acc) @
     map (\<lambda>r. path_resolve cwd (m_group1 r)) (replace_results (marker opts) s i)"
proof (induction opts cwd f s i acc rule: config_scan.induct)
  case (1 opts cwd fAbs content i acc)
  show ?case
  proof (cases "regexp_exec (marker opts) content i")
    case None
    with "1.prems" show ?thesis
      by (simp add: config_scan.simps [of opts cwd fAbs content i]
          replace_results.simps [of "marker opts" content i])
  next
    case (Some m)
    with "1.prems" have ne: "m_all m \<noteq> []"
      by (auto simp: config_scan.simps [of opts cwd fAbs content i])
    let ?acc1 = "(object_set (fst acc)
          (non_word_to_underscore (path_relative cwd cwd (path_resolve cwd (m_group1 m))))
          (path_resolve cwd (m_group1 m)),
        snd acc @ [\<lparr>ref_ascxPath = fAbs, ref_entryAbs = path_resolve cwd (m_group1 m)\<rparr>])"
    from "1.prems" Some ne have rec:
      "config_scan opts cwd fAbs content (m_index m + length (m_all m)) ?acc1 = Some acc'"
      by (simp add: config_scan.simps [of opts cwd fAbs content i] Let_def)
    from "1.IH" [OF Some ne refl refl refl refl rec] Some ne show ?thesis
      by (simp add: replace_results.simps [of "marker opts" content i] Let_def)
  qed
qed

lemma expected_build_contexts_entries:
  "map entryFromMarker (expected_build_contexts opts cwd cfg bundle f rs) =
     map m_group1 (filter (\<lambda>r. entry_chunk cwd bundle r \<noteq> None) rs) \<and>
   map entryAbs (expected_build_contexts opts cwd cfg bundle f rs) =
     map (\<lambda>r. path_resolve cwd (m_group1 r)) (filter (\<lambda>r. entry_chunk cwd bundle r \<noteq> None) rs)"
  by (induction rs) (auto simp: expected_build_context_def split: option.splits)

lemma config_scan_no_match:
  "regexp_exec (marker opts) s 0 = None \<Longrightarrow> config_scan opts cwd f s 0 acc = Some acc"
  by (simp add: config_scan.simps [of opts cwd f s 0])

section \<open>The dev rewrite leaves a text without markers alone\<close>

text \<open>
  C2. When the marker pattern matches at no index of the text, \<open>rewriteAscxForDev\<close>
  returns the text itself, whatever the template path and the dev origin are.
\<close>

theorem rewriteAscxForDev_identity:
  assumes "\<forall>j. j \<le> length original \<longrightarrow> marker opts original j = None"
  shows "rewriteAscxForDev opts cwd original ascxAbs devOrigin = original"
proof -
  from assms have "regexp_exec (marker opts) original 0 = None"
    by (simp add: regexp_exec_None_iff)
  then show ?thesis
    by (simp add: rewriteAscxForDev_def rewriteAscxForDev_traced_def regexp_test_def)
qed

theorem rewriteAscxForDev_identity_witness:
  "regexp_test (marker example_options) ''<p>plain</p>'' = False \<and>
   rewriteAscxForDev example_options ''/proj'' ''<p>plain</p>'' ''/proj/a.ascx''
     ''http://localhost:5173'' = ''<p>plain</p>''"
proof -
  have none: "regexp_exec (marker example_options) ''<p>plain</p>'' 0 = None"
    by code_simp
  then have h: "\<forall>j. j \<le> length ''<p>plain</p>'' \<longrightarrow> marker example_options ''<p>plain</p>'' j = None"
    by (simp only: regexp_exec_None_iff) simp
  from rewriteAscxForDev_identity [OF h] none show ?thesis
    by (simp add: regexp_test_def)
qed

section \<open>Each marker is replaced once\<close>

lemma example_occurrences:
  "replace_results (marker example_options) example_text 0 =
     [\<lparr>m_index = 1, m_all = ''<!-- @vite:entry x.js -->'', m_group1 = ''x.js''\<rparr>,
      \<lparr>m_index = 27, m_all = ''<!--@vite:entry /y.js-->'', m_group1 = ''/y.js''\<rparr>]"
  by code_simp

lemma example_gaps:
  "gaps_from example_text 0 (replace_results (marker example_options) example_text 0) =
     [''a'', ''b'', []]"
  by code_simp

text \<open>
  C1, as amended. Let the marker pattern have the occurrences \<open>occs\<close> in a text, in text
  order: each is a match of the pattern at its index, and none starts before the end of
  the one before it. The text is its gaps woven with the matched substrings. The dev
  rewrite calls
  the renderer once per occurrence and returns the same gaps woven with the markup the
  renderer returned; the build rewrite returns the same gaps woven with, for each
  occurrence, the markup the renderer returned for it or, when no entry chunk matches the
  occurrence, the missing-entry comment. So every character outside the matched
  substrings is kept, in order, and each matched substring is replaced exactly once.
\<close>

theorem markers_replaced_once:
  "(let occs = replace_results (marker opts) original 0;
        gaps = gaps_from original 0 occs;
        calls = rewriteAscxForDev_calls opts cwd original ascxAbs devOrigin
    in well_placed original 0 occs \<and>
       (\<forall>r \<in> set occs. \<exists>n. marker opts original (m_index r) = Some (n, m_group1 r) \<and>
                             m_all r = take n (drop (m_index r) original)) \<and>
       length gaps = Suc (length occs) \<and>
       original = weave gaps (map m_all occs) \<and>
       length calls = length occs \<and>
       rewriteAscxForDev opts cwd original ascxAbs devOrigin =
         weave gaps (map (render opts) calls) \<and>
       generateBundle_rewritten opts cwd cfg bundle ascxAbs original =
         weave gaps (map (expected_build_replacement opts cwd cfg bundle ascxAbs) occs))"
proof -
  have "length (expected_dev_contexts cwd ascxAbs devOrigin rs) = length rs" for rs
    by (cases rs) simp_all
  moreover have "\<forall>r \<in> set (replace_results (marker opts) original 0).
      \<exists>n. marker opts original (m_index r) = Some (n, m_group1 r) \<and>
          m_all r = take n (drop (m_index r) original)"
    using replace_results_sound [of _ "marker opts" original 0] by blast
  ultimately show ?thesis
    using original_weave [of original "marker opts"]
    by (simp add: Let_def length_gaps_from rewriteAscxForDev_def rewriteAscxForDev_calls_def
        rewriteAscxForDev_traced_eq generateBundle_rewritten_def
        generateBundle_rewritten_traced_eq well_placed_results)
qed

theorem markers_replaced_once_witness:
  "example_text = weave [''a'', ''b'', []] [''<!-- @vite:entry x.js -->'', ''<!--@vite:entry /y.js-->''] \<and>
   length (rewriteAscxForDev_calls example_options ''/proj'' example_text ''/proj/a.ascx'' ''http://h'') = 2 \<and>
   rewriteAscxForDev example_options ''/proj'' example_text ''/proj/a.ascx'' ''http://h'' =
     weave [''a'', ''b'', []]
       (map (render example_options)
          (rewriteAscxForDev_calls example_options ''/proj'' example_text ''/proj/a.ascx'' ''http://h'')) \<and>
   generateBundle_rewritten example_options ''/proj'' example_config [] ''/proj/a.ascx'' example_text =
     weave [''a'', ''b'', []] [''<!-- vite:missing-entry x.js -->'', ''<!-- vite:missing-entry /y.js -->'']"
proof -
  have reps: "map (expected_build_replacement example_options ''/proj'' example_config [] ''/proj/a.ascx'')
      (replace_results (marker example_options) example_text 0) =
      [''<!-- vite:missing-entry x.js -->'', ''<!-- vite:missing-entry /y.js -->'']"
    by (simp add: example_occurrences expected_build_replacement_def entry_chunk_def
        missing_entry_comment_def)
  have two: "length (replace_results (marker example_options) example_text 0) = 2"
    and matched: "map m_all (replace_results (marker example_options) example_text 0) =
      [''<!-- @vite:entry x.js -->'', ''<!--@vite:entry /y.js-->'']"
    by (simp_all add: example_occurrences)
  from markers_replaced_once [of example_options example_text "''/proj''" "''/proj/a.ascx''"
      "''http://h''" example_config "[]"]
  show ?thesis
    unfolding Let_def example_gaps reps two matched
    by blast
qed

text \<open>
  The claim as first stated has the build rewrite replace every occurrence by the
  renderer's markup. With an empty bundle the single marker below is replaced by the
  comment, and the renderer is never called.
\<close>

theorem build_rewrite_counterexample:
  "map m_all (replace_results (marker example_options) ''<!-- @vite:entry a.js -->'' 0) =
     [''<!-- @vite:entry a.js -->''] \<and>
   generateBundle_calls example_options ''/proj'' example_config [] ''/proj/a.ascx''
     ''<!-- @vite:entry a.js -->'' = [] \<and>
   generateBundle_rewritten example_options ''/proj'' example_config [] ''/proj/a.ascx''
     ''<!-- @vite:entry a.js -->'' = ''<!-- vite:missing-entry a.js -->''"
  by code_simp

section \<open>The client URL goes to the first occurrence only\<close>

text \<open>
  C3. The dev rewrite hands the renderer one context per occurrence, in text order (the
  occurrences have increasing indices). The context of the first occurrence has the
  \<open>devClientUrl\<close> \<open>devOrigin + "/@vite/client"\<close>, and the context of every later
  occurrence of the same call has none.
\<close>

theorem dev_client_url_first_only:
  "(let calls = rewriteAscxForDev_calls opts cwd original ascxAbs devOrigin;
        occs = replace_results (marker opts) original 0
    in length calls = length occs \<and>
       map entryFromMarker calls = map m_group1 occs \<and>
       sorted_wrt (\<lambda>a b. m_index a < m_index b) occs \<and>
       (\<forall>i. i < length calls \<longrightarrow>
          devClientUrl (calls ! i) =
            (if i = 0 then Some (devOrigin @ ''/@vite/client'') else None)))"
proof -
  have "length (expected_dev_contexts cwd ascxAbs devOrigin rs) = length rs \<and>
        map entryFromMarker (expected_dev_contexts cwd ascxAbs devOrigin rs) = map m_group1 rs \<and>
        (\<forall>i. i < length rs \<longrightarrow>
           devClientUrl (expected_dev_contexts cwd ascxAbs devOrigin rs ! i) =
             (if i = 0 then Some (devOrigin @ ''/@vite/client'') else None))" for rs
  proof (cases rs)
    case Nil
    then show ?thesis by simp
  next
    case (Cons r rs')
    have "devClientUrl ((expected_dev_context cwd ascxAbs devOrigin True r #
            map (expected_dev_context cwd ascxAbs devOrigin False) rs') ! i) =
          (if i = 0 then Some (devOrigin @ ''/@vite/client'') else None)"
      if "i < Suc (length rs')" for i
      using that by (cases i) (simp_all add: expected_dev_context_def)
    with Cons show ?thesis
      by (simp add: expected_dev_context_def comp_def)
  qed
  then show ?thesis
    by (simp add: Let_def rewriteAscxForDev_calls_def rewriteAscxForDev_traced_eq
        replace_results_sorted)
qed

theorem dev_client_url_first_only_witness:
  "length (replace_results (marker example_options) example_text 0) = 2 \<and>
   length (rewriteAscxForDev_calls example_options ''/proj'' example_text ''/proj/a.ascx'' ''http://h'') = 2 \<and>
   devClientUrl (rewriteAscxForDev_calls example_options ''/proj'' example_text ''/proj/a.ascx'' ''http://h'' ! 0) =
     Some ''http://h/@vite/client'' \<and>
   devClientUrl (rewriteAscxForDev_calls example_options ''/proj'' example_text ''/proj/a.ascx'' ''http://h'' ! 1) =
     None"
proof -
  have two: "length (replace_results (marker example_options) example_text 0) = 2"
    by (simp add: example_occurrences)
  from dev_client_url_first_only [of example_options "''/proj''" example_text "''/proj/a.ascx''"
      "''http://h''"]
  show ?thesis
    unfolding Let_def two by simp
qed

section \<open>A marker without a chunk\<close>

lemma written_append: "written (es @ fs) = written es @ written fs"
  by (induction es rule: written.induct) simp_all

lemma generateBundle_rewritten_no_marker:
  "\<not> regexp_test (marker opts) s \<Longrightarrow> generateBundle_rewritten opts cwd cfg bundle f s = s"
  by (simp add: generateBundle_rewritten_def generateBundle_rewritten_traced_eq regexp_test_def
      replace_results_no_match)

lemma generateBundle_loop_written:
  "\<exists>err w'. generateBundle_loop opts cwd cfg bundle outDir fs w = (err, w') \<and>
        written (trace w') =
          written (trace w) @
          mirrored_writes (generateBundle_rewritten opts cwd cfg bundle) (outPath opts cwd outDir)
            (files w) fs \<and>
        (err = None \<or> (\<exists>f \<in> set fs. err = Some (ENOENT f))) \<and>
        ((\<forall>f \<in> set fs. files w f \<noteq> None) \<longrightarrow> err = None)"
proof (induction fs arbitrary: w)
  case Nil
  show ?case by simp
next
  case (Cons f fs)
  show ?case
  proof (cases "files w f")
    case None
    then have "generateBundle_loop opts cwd cfg bundle outDir (f # fs) w = (Some (ENOENT f), w)"
      by (simp add: readFileSync_def)
    with None show ?thesis by simp
  next
    case (Some original)
    let ?c = "generateBundle_rewritten opts cwd cfg bundle f original"
    define w1 where "w1 = writeMirrored opts cwd outDir f ?c w"
    from Cons.IH [of w1] obtain err w' where
      run: "generateBundle_loop opts cwd cfg bundle outDir fs w1 = (err, w')" and
      wr: "written (trace w') =
             written (trace w1) @
             mirrored_writes (generateBundle_rewritten opts cwd cfg bundle) (outPath opts cwd outDir)
               (files w1) fs" and
      er: "err = None \<or> (\<exists>g \<in> set fs. err = Some (ENOENT g))" and
      ok: "(\<forall>g \<in> set fs. files w1 g \<noteq> None) \<longrightarrow> err = None"
      by blast
    have step: "generateBundle_loop opts cwd cfg bundle outDir (f # fs) w =
        generateBundle_loop opts cwd cfg bundle outDir fs w1"
      using Some generateBundle_rewritten_no_marker [of opts original cwd cfg "bundle" f]
      by (simp add: readFileSync_def w1_def Let_def)
    have t1: "written (trace w1) = written (trace w) @ [(outPath opts cwd outDir f, ?c)]"
      by (simp add: w1_def trace_writeMirrored written_append)
    have f1: "files w1 = (files w)(outPath opts cwd outDir f \<mapsto> ?c)"
      by (simp add: w1_def files_writeMirrored)
    have mw: "mirrored_writes (generateBundle_rewritten opts cwd cfg bundle) (outPath opts cwd outDir)
          (files w) (f # fs) =
        (outPath opts cwd outDir f, ?c) #
        mirrored_writes (generateBundle_rewritten opts cwd cfg bundle) (outPath opts cwd outDir)
          (files w1) fs"
      unfolding mirrored_writes.simps Some option.case f1 ..
    have ok': "(\<forall>g \<in> set (f # fs). files w g \<noteq> None) \<longrightarrow> err = None"
    proof
      assume "\<forall>g \<in> set (f # fs). files w g \<noteq> None"
      then have "\<forall>g \<in> set fs. files w1 g \<noteq> None" unfolding f1 by simp
      with ok show "err = None" by blast
    qed
    have er': "err = None \<or> (\<exists>g \<in> set (f # fs). err = Some (ENOENT g))"
      using er by auto
    show ?thesis
      unfolding step mw using run wr t1 er' ok' by (intro exI [of _ err] exI [of _ w']) simp
  qed
qed

lemma mirrored_writes_apart:
  assumes "\<forall>f \<in> set fs. mirror f \<notin> set fs"
    and "\<forall>f \<in> set fs. fs' f = fs0 f \<and> fs0 f \<noteq> None"
  shows "mirrored_writes rewrite mirror fs' fs =
         map (\<lambda>f. (mirror f, rewrite f (the (fs0 f)))) fs"
  using assms
proof (induction fs arbitrary: fs')
  case Nil
  show ?case by simp
next
  case (Cons f fs)
  from Cons.prems(2) obtain original where rd: "fs' f = Some original" "fs0 f = Some original"
    by auto
  have 1: "\<forall>g \<in> set fs. mirror g \<notin> set fs" using Cons.prems(1) by auto
  have 2: "\<forall>g \<in> set fs. (fs'(mirror f \<mapsto> rewrite f original)) g = fs0 g \<and> fs0 g \<noteq> None"
    using Cons.prems by auto
  have ih: "mirrored_writes rewrite mirror (fs'(mirror f \<mapsto> rewrite f original)) fs =
      map (\<lambda>f. (mirror f, rewrite f (the (fs0 f)))) fs"
    by (rule Cons.IH [OF 1 2])
  show ?case
    unfolding mirrored_writes.simps rd option.case ih by (simp add: rd)
qed

lemma mirrored_writes_length:
  "\<forall>f \<in> set fs. m f \<noteq> None \<Longrightarrow> length (mirrored_writes rewrite mirror m fs) = length fs"
proof (induction fs arbitrary: m)
  case Nil
  show ?case by simp
next
  case (Cons f fs)
  from Cons.prems obtain original where rd: "m f = Some original" by auto
  from Cons.prems have "\<forall>g \<in> set fs. (m(mirror f \<mapsto> rewrite f original)) g \<noteq> None"
    by simp
  then have ih: "length (mirrored_writes rewrite mirror (m(mirror f \<mapsto> rewrite f original)) fs) =
      length fs"
    by (rule Cons.IH)
  show ?case
    unfolding mirrored_writes.simps rd option.case by (simp add: ih)
qed

text \<open>
  C4. In the build rewrite an occurrence whose resolved module path matches no entry
  chunk is replaced by the comment \<open><!-- vite:missing-entry\<close>, the captured reference
  and \<open>-->\<close>; the renderer is called exactly for the occurrences that have a chunk,
  which are replaced by its markup. \<open>generateBundle\<close> throws nothing for a missing
  chunk: the only error it can end with is the read error of a tracked file. It writes,
  file by file in the order of the tracked files, the build rewrite of the text it reads
  to the mirrored path, up to the first file that cannot be read. When every tracked file
  can be read it ends without an error and has written one file per tracked file; when
  moreover no mirrored path is itself a tracked file, each text written is the build
  rewrite of what the file held before the hook ran.
\<close>

theorem missing_entry_placeholder:
  assumes build: "command cfg = CmdBuild"
  shows
    "(let occs = replace_results (marker opts) original 0;
          reps = replacements (generateBundle_replacer opts cwd cfg bundle fAbs) [] occs
      in generateBundle_rewritten opts cwd cfg bundle fAbs original =
           weave (gaps_from original 0 occs) reps \<and>
         length reps = length occs \<and>
         (\<forall>i. i < length occs \<and> entry_chunk cwd bundle (occs ! i) = None \<longrightarrow>
            reps ! i = ''<!-- vite:missing-entry '' @ m_group1 (occs ! i) @ '' -->'') \<and>
         (\<forall>i c. i < length occs \<and> entry_chunk cwd bundle (occs ! i) = Some c \<longrightarrow>
            reps ! i = render opts (expected_build_context opts cwd cfg fAbs (occs ! i) c)) \<and>
         map entryFromMarker (generateBundle_calls opts cwd cfg bundle fAbs original) =
           map m_group1 (filter (\<lambda>r. entry_chunk cwd bundle r \<noteq> None) occs)) \<and>
     (let outDir = path_resolve cwd
                     (case outAscxDir opts of None \<Rightarrow> build_outDir cfg | Some d \<Rightarrow> d);
          mirrored = mirrored_writes (generateBundle_rewritten opts cwd cfg bundle)
                       (outPath opts cwd outDir) (files w) (allAscxFiles st)
      in \<exists>err w'. generateBundle opts cwd cfg st bundle w = (err, w') \<and>
           written (trace w') = written (trace w) @ mirrored \<and>
           (err = None \<or> (\<exists>f \<in> set (allAscxFiles st). err = Some (ENOENT f))) \<and>
           ((\<forall>f \<in> set (allAscxFiles st). files w f \<noteq> None) \<longrightarrow>
              err = None \<and> length mirrored = length (allAscxFiles st)) \<and>
           ((\<forall>f \<in> set (allAscxFiles st).
                files w f \<noteq> None \<and> outPath opts cwd outDir f \<notin> set (allAscxFiles st)) \<longrightarrow>
              mirrored =
                map (\<lambda>f. (outPath opts cwd outDir f,
                           generateBundle_rewritten opts cwd cfg bundle f (the (files w f))))
                  (allAscxFiles st)))"
proof -
  let ?outDir = "path_resolve cwd (case outAscxDir opts of None \<Rightarrow> build_outDir cfg | Some d \<Rightarrow> d)"
  let ?mw = "mirrored_writes (generateBundle_rewritten opts cwd cfg bundle)
      (outPath opts cwd ?outDir) (files w) (allAscxFiles st)"
  from generateBundle_loop_written [of opts cwd cfg "bundle" ?outDir "allAscxFiles st"
      "mkdirSync ?outDir w"]
  obtain err w' where run: "generateBundle opts cwd cfg st bundle w = (err, w')"
    and wr: "written (trace w') = written (trace w) @ ?mw"
    and er: "err = None \<or> (\<exists>f \<in> set (allAscxFiles st). err = Some (ENOENT f))"
    and ok: "(\<forall>f \<in> set (allAscxFiles st). files w f \<noteq> None) \<longrightarrow> err = None"
    using build by (auto simp: generateBundle_def Let_def mkdirSync_def written_append)
  have apart: "?mw = map (\<lambda>f. (outPath opts cwd ?outDir f,
        generateBundle_rewritten opts cwd cfg bundle f (the (files w f)))) (allAscxFiles st)"
    if "\<forall>f \<in> set (allAscxFiles st).
          files w f \<noteq> None \<and> outPath opts cwd ?outDir f \<notin> set (allAscxFiles st)"
    using that by (intro mirrored_writes_apart) auto
  have len: "length ?mw = length (allAscxFiles st)"
    if "\<forall>f \<in> set (allAscxFiles st). files w f \<noteq> None"
    using that by (rule mirrored_writes_length)
  have text_part:
    "generateBundle_rewritten opts cwd cfg bundle fAbs original =
       weave (gaps_from original 0 occs) reps \<and>
     length reps = length occs \<and>
     (\<forall>i. i < length occs \<and> entry_chunk cwd bundle (occs ! i) = None \<longrightarrow>
        reps ! i = ''<!-- vite:missing-entry '' @ m_group1 (occs ! i) @ '' -->'') \<and>
     (\<forall>i c. i < length occs \<and> entry_chunk cwd bundle (occs ! i) = Some c \<longrightarrow>
        reps ! i = render opts (expected_build_context opts cwd cfg fAbs (occs ! i) c)) \<and>
     map entryFromMarker (generateBundle_calls opts cwd cfg bundle fAbs original) =
       map m_group1 (filter (\<lambda>r. entry_chunk cwd bundle r \<noteq> None) occs)"
    if occs: "occs = replace_results (marker opts) original 0"
      and reps: "reps = replacements (generateBundle_replacer opts cwd cfg bundle fAbs) [] occs"
    for occs reps
  proof -
    from reps have r: "reps = map (expected_build_replacement opts cwd cfg bundle fAbs) occs"
      by (simp add: build_replacer_run)
    show ?thesis
      unfolding r
      by (simp add: occs generateBundle_rewritten_def generateBundle_calls_def
          generateBundle_rewritten_traced_eq expected_build_contexts_entries
          expected_build_replacement_def missing_entry_comment_def)
  qed
  have files_part: "\<exists>err w'. generateBundle opts cwd cfg st bundle w = (err, w') \<and>
      written (trace w') = written (trace w) @ ?mw \<and>
      (err = None \<or> (\<exists>f \<in> set (allAscxFiles st). err = Some (ENOENT f))) \<and>
      ((\<forall>f \<in> set (allAscxFiles st). files w f \<noteq> None) \<longrightarrow>
         err = None \<and> length ?mw = length (allAscxFiles st)) \<and>
      ((\<forall>f \<in> set (allAscxFiles st).
           files w f \<noteq> None \<and> outPath opts cwd ?outDir f \<notin> set (allAscxFiles st)) \<longrightarrow>
         ?mw = map (\<lambda>f. (outPath opts cwd ?outDir f,
                          generateBundle_rewritten opts cwd cfg bundle f (the (files w f))))
                 (allAscxFiles st))"
    using run wr er ok len apart by (intro exI [of _ err] exI [of _ w']) blast
  show ?thesis
    unfolding Let_def using text_part [OF refl refl] files_part by (rule conjI)
qed

lemma example_build_replacements:
  "replacements (generateBundle_replacer example_render_options ''/proj'' example_config
       example_bundle ''/proj/a.ascx'') []
     (replace_results (marker example_render_options) example_text 0) ! 1 =
   ''<!-- vite:missing-entry /y.js -->''"
  by code_simp

lemma example_mirrored_writes:
  "mirrored_writes
     (generateBundle_rewritten example_render_options ''/proj'' example_config example_bundle)
     (outPath example_render_options ''/proj''
        (path_resolve ''/proj''
           (case outAscxDir example_render_options of
              None \<Rightarrow> build_outDir example_config | Some d \<Rightarrow> d)))
     (files example_world) (allAscxFiles example_state) =
   [(''/proj/dist/a.ascx'', ''a/assets/x.123.jsb<!-- vite:missing-entry /y.js -->''),
    (''/proj/dist/sub/b.ascx'', ''<p>plain</p>'')]"
  by code_simp

theorem missing_entry_placeholder_witness:
  "entry_chunk ''/proj'' example_bundle
     (replace_results (marker example_render_options) example_text 0 ! 1) = None \<and>
   replacements (generateBundle_replacer example_render_options ''/proj'' example_config
       example_bundle ''/proj/a.ascx'') []
     (replace_results (marker example_render_options) example_text 0) ! 1 =
   ''<!-- vite:missing-entry /y.js -->'' \<and>
   map entryFromMarker
     (generateBundle_calls example_render_options ''/proj'' example_config example_bundle
        ''/proj/a.ascx'' example_text) = [''x.js''] \<and>
   (\<exists>w'. generateBundle example_render_options ''/proj'' example_config example_state
           example_bundle example_world = (None, w') \<and>
         written (trace w') =
           [(''/proj/dist/a.ascx'', ''a/assets/x.123.jsb<!-- vite:missing-entry /y.js -->''),
            (''/proj/dist/sub/b.ascx'', ''<p>plain</p>'')])"
proof -
  have h1: "command example_config = CmdBuild"
    by (simp add: example_config_def)
  have h2: "\<forall>f \<in> set (allAscxFiles example_state). files example_world f \<noteq> None"
    by (simp add: example_state_def example_world_def)
  have missing: "entry_chunk ''/proj'' example_bundle
      (replace_results (marker example_render_options) example_text 0 ! 1) = None"
    by code_simp
  have found: "map m_group1 (filter (\<lambda>r. entry_chunk ''/proj'' example_bundle r \<noteq> None)
      (replace_results (marker example_render_options) example_text 0)) = [''x.js'']"
    by code_simp
  have t0: "written (trace example_world) = []"
    by (simp add: example_world_def)
  note inst = missing_entry_placeholder [OF h1, of example_render_options example_text
      "''/proj''" example_bundle "''/proj/a.ascx''" example_world example_state]
  from inst have calls: "map entryFromMarker
     (generateBundle_calls example_render_options ''/proj'' example_config example_bundle
        ''/proj/a.ascx'' example_text) = [''x.js'']"
    unfolding Let_def found by blast
  from inst h2 have "\<exists>w'. generateBundle example_render_options ''/proj'' example_config
      example_state example_bundle example_world = (None, w') \<and>
      written (trace w') =
        [(''/proj/dist/a.ascx'', ''a/assets/x.123.jsb<!-- vite:missing-entry /y.js -->''),
         (''/proj/dist/sub/b.ascx'', ''<p>plain</p>'')]"
    unfolding Let_def example_mirrored_writes t0 append_Nil by blast
  with missing example_build_replacements calls show ?thesis by blast
qed

section \<open>Entries are resolved from the working directory\<close>

text \<open>
  C9. The absolute module path of an occurrence is \<open>path.resolve\<close> of the captured
  text in the process's working directory, in the dev rewrite, in the build rewrite and
  in the scan of the \<open>config\<close> hook. The path of the template does not enter: the same
  text rewritten for two templates gives the same module paths.
\<close>

theorem entries_resolved_from_cwd:
  "(let occs = replace_results (marker opts) original 0;
        resolved = map (\<lambda>r. path_resolve cwd (m_group1 r)) occs
    in map entryAbs (rewriteAscxForDev_calls opts cwd original ascxAbs devOrigin) = resolved \<and>
       map entryAbs (rewriteAscxForDev_calls opts cwd original otherAscx devOrigin) = resolved \<and>
       map entryAbs (generateBundle_calls opts cwd cfg bundle ascxAbs original) =
         map (\<lambda>r. path_resolve cwd (m_group1 r))
           (filter (\<lambda>r. entry_chunk cwd bundle r \<noteq> None) occs) \<and>
       (\<forall>acc acc'. config_scan opts cwd ascxAbs original 0 acc = Some acc' \<longrightarrow>
          map ref_entryAbs (snd acc') = map ref_entryAbs (snd acc) @ resolved))"
proof -
  have "map entryAbs (expected_dev_contexts cwd a devOrigin rs) =
        map (\<lambda>r. path_resolve cwd (m_group1 r)) rs" for a rs
    by (cases rs) (simp_all add: expected_dev_context_def)
  then show ?thesis
    by (auto simp: Let_def rewriteAscxForDev_calls_def rewriteAscxForDev_traced_eq
        generateBundle_calls_def generateBundle_rewritten_traced_eq
        expected_build_contexts_entries config_scan_refs)
qed

theorem entries_resolved_from_cwd_witness:
  "map entryAbs (rewriteAscxForDev_calls example_options ''/proj'' example_text
     ''/proj/skins/one/a.ascx'' ''http://h'') = [''/proj/x.js'', ''/y.js''] \<and>
   map entryAbs (rewriteAscxForDev_calls example_options ''/proj'' example_text
     ''/proj/skins/two/b.ascx'' ''http://h'') = [''/proj/x.js'', ''/y.js''] \<and>
   map entryAbs (generateBundle_calls example_options ''/proj'' example_config example_bundle
     ''/proj/skins/one/a.ascx'' example_text) = [''/proj/x.js''] \<and>
   map_option (\<lambda>acc. map ref_entryAbs (snd acc))
     (config_scan example_options ''/proj'' ''/proj/skins/one/a.ascx'' example_text 0 ([], [])) =
     Some [''/proj/x.js'', ''/y.js'']"
proof -
  have resolved: "map (\<lambda>r. path_resolve ''/proj'' (m_group1 r))
      (replace_results (marker example_options) example_text 0) = [''/proj/x.js'', ''/y.js'']"
    by code_simp
  have found: "map (\<lambda>r. path_resolve ''/proj'' (m_group1 r))
      (filter (\<lambda>r. entry_chunk ''/proj'' example_bundle r \<noteq> None)
        (replace_results (marker example_options) example_text 0)) = [''/proj/x.js'']"
    by code_simp
  have scan: "config_scan example_options ''/proj'' ''/proj/skins/one/a.ascx''
      example_text 0 ([], []) =
      Some ([(''x_js'', ''/proj/x.js''), (''___y_js'', ''/y.js'')],
            [\<lparr>ref_ascxPath = ''/proj/skins/one/a.ascx'', ref_entryAbs = ''/proj/x.js''\<rparr>,
             \<lparr>ref_ascxPath = ''/proj/skins/one/a.ascx'', ref_entryAbs = ''/y.js''\<rparr>])"
    by code_simp
  from entries_resolved_from_cwd [of example_options example_text "''/proj''"
      "''/proj/skins/one/a.ascx''" "''http://h''" "''/proj/skins/two/b.ascx''" example_config
      example_bundle]
  show ?thesis
    unfolding Let_def resolved found
    using scan by simp
qed

section \<open>Requiring an entry\<close>

lemma config_files_marker_free:
  "\<forall>f \<in> set fs. \<forall>c. files w f = Some c \<longrightarrow> \<not> regexp_test (marker opts) c \<Longrightarrow>
   config_files opts cwd w fs acc =
     Some (map_option ENOENT (find (\<lambda>p. files w p = None) fs), acc)"
proof (induction fs)
  case Nil
  show ?case by simp
next
  case (Cons f fs)
  show ?case
  proof (cases "files w f")
    case None
    then show ?thesis by (simp add: readFileSync_def)
  next
    case (Some c)
    with Cons.prems have "regexp_exec (marker opts) c 0 = None"
      by (simp add: regexp_test_def)
    with Some Cons show ?thesis
      by (simp add: readFileSync_def config_scan_no_match)
  qed
qed

text \<open>
  C5, as amended. In build mode the \<open>config\<close> hook reads every file that the search
  found at its normalised path, which is in lower case. Let no file that can be read there
  hold a marker occurrence. When some file cannot be read there, the hook throws the read
  error of the first such file, whatever \<open>requireAtLeastOneEntry\<close> is. Otherwise, with
  \<open>requireAtLeastOneEntry\<close> enabled it throws the error
  \<open>No @vite:entry markers found in ascx files.\<close>, and with it not enabled it throws
  nothing and returns no configuration of its own, so that the build goes on.
\<close>

theorem require_at_least_one_entry:
  assumes "\<forall>f \<in> set found. \<forall>c. files w (norm f) = Some c \<longrightarrow> \<not> regexp_test (marker opts) c"
  shows "\<exists>st'. config opts cwd st userOutDir CmdBuild (\<lambda>ignore. found) w =
           Some (st',
                 case find (\<lambda>p. files w p = None) (map norm found) of
                   Some p \<Rightarrow> Inl (ENOENT p)
                 | None \<Rightarrow>
                     if requireAtLeastOneEntry opts = Some True
                     then Inl (Error ''No @vite:entry markers found in ascx files.'')
                     else Inr Nothing)"
proof -
  from assms have "\<forall>f \<in> set (map norm found).
      \<forall>c. files w f = Some c \<longrightarrow> \<not> regexp_test (marker opts) c"
    by simp
  from config_files_marker_free [OF this]
  show ?thesis
    by (cases "find (\<lambda>p. files w p = None) (map norm found)") (simp_all add: config_def Let_def)
qed

theorem require_at_least_one_entry_witness:
  "map_option snd
     (config (example_options\<lparr>requireAtLeastOneEntry := Some True\<rparr>) ''/proj'' example_state None
        CmdBuild (\<lambda>ignore. [''/proj/sub/b.ascx'']) example_world) =
     Some (Inl (Error ''No @vite:entry markers found in ascx files.'')) \<and>
   map_option snd
     (config example_options ''/proj'' example_state None
        CmdBuild (\<lambda>ignore. [''/proj/sub/b.ascx'']) example_world) =
     Some (Inr Nothing) \<and>
   map_option snd
     (config (example_options\<lparr>requireAtLeastOneEntry := Some True\<rparr>) ''/proj'' example_state None
        CmdBuild (\<lambda>ignore. [''/proj/Skins/Home.ascx'']) capital_world) =
     Some (Inl (ENOENT ''/proj/skins/home.ascx''))"
proof -
  have nm: "\<not> regexp_test (marker opts) ''<p>plain</p>''" if "opt_marker opts = None" for opts
  proof -
    have "regexp_exec default_marker ''<p>plain</p>'' 0 = None" by code_simp
    with that show ?thesis by (simp add: regexp_test_def marker_def)
  qed
  have n: "norm ''/proj/sub/b.ascx'' = ''/proj/sub/b.ascx''" by code_simp
  have h1: "\<forall>f \<in> set [''/proj/sub/b.ascx''].
      \<forall>c. files example_world (norm f) = Some c \<longrightarrow>
          \<not> regexp_test (marker (example_options\<lparr>requireAtLeastOneEntry := Some True\<rparr>)) c"
    using nm [of "example_options\<lparr>requireAtLeastOneEntry := Some True\<rparr>"]
    by (simp add: n example_world_def example_options_def)
  have h2: "\<forall>f \<in> set [''/proj/sub/b.ascx''].
      \<forall>c. files example_world (norm f) = Some c \<longrightarrow> \<not> regexp_test (marker example_options) c"
    using nm [of example_options]
    by (simp add: n example_world_def example_options_def)
  have r: "find (\<lambda>p. files example_world p = None) (map norm [''/proj/sub/b.ascx'']) = None"
    by (simp add: n example_world_def)
  have n3: "norm ''/proj/Skins/Home.ascx'' = ''/proj/skins/home.ascx''" by code_simp
  have h3: "\<forall>f \<in> set [''/proj/Skins/Home.ascx''].
      \<forall>c. files capital_world (norm f) = Some c \<longrightarrow>
          \<not> regexp_test (marker (example_options\<lparr>requireAtLeastOneEntry := Some True\<rparr>)) c"
    by (simp add: n3 capital_world_def)
  have r3: "find (\<lambda>p. files capital_world p = None) (map norm [''/proj/Skins/Home.ascx'']) =
      Some ''/proj/skins/home.ascx''"
    by (simp add: n3 capital_world_def)
  have a: "map_option snd
     (config (example_options\<lparr>requireAtLeastOneEntry := Some True\<rparr>) ''/proj'' example_state None
        CmdBuild (\<lambda>ignore. [''/proj/sub/b.ascx'']) example_world) =
     Some (Inl (Error ''No @vite:entry markers found in ascx files.''))"
    using require_at_least_one_entry [OF h1, of "''/proj''" example_state None]
    unfolding r by (auto simp: example_options_def)
  have b: "map_option snd
     (config example_options ''/proj'' example_state None
        CmdBuild (\<lambda>ignore. [''/proj/sub/b.ascx'']) example_world) =
     Some (Inr Nothing)"
    using require_at_least_one_entry [OF h2, of "''/proj''" example_state None]
    unfolding r by (auto simp: example_options_def)
  have c: "map_option snd
     (config (example_options\<lparr>requireAtLeastOneEntry := Some True\<rparr>) ''/proj'' example_state None
        CmdBuild (\<lambda>ignore. [''/proj/Skins/Home.ascx'']) capital_world) =
     Some (Inl (ENOENT ''/proj/skins/home.ascx''))"
    using require_at_least_one_entry [OF h3, of "''/proj''" example_state None]
    unfolding r3 by auto
  from a b c show ?thesis by (intro conjI)
qed

text \<open>
  The claim as first stated lets the flag alone decide when no marker is found. A file
  whose name has a capital letter is found under that name and read under its lower-case
  name: where the file system tells the two apart the read fails, and the hook throws with
  the flag not enabled and no marker anywhere.
\<close>

theorem require_at_least_one_entry_counterexample:
  "files capital_world ''/proj/Skins/Home.ascx'' = Some ''<p>plain</p>'' \<and>
   regexp_test (marker example_options) ''<p>plain</p>'' = False \<and>
   requireAtLeastOneEntry example_options = None \<and>
   map_option snd
     (config example_options ''/proj'' example_state None CmdBuild
        (\<lambda>ignore. [''/proj/Skins/Home.ascx'']) capital_world) =
     Some (Inl (ENOENT ''/proj/skins/home.ascx''))"
  by code_simp

section \<open>The separator of a public URL\<close>

lemma ensure_trailing_slash_eq:
  "ensure_trailing_slash b = strip_trailing_slash b @ [slash]"
  by (auto simp: ensure_trailing_slash_def strip_trailing_slash_def suffix_def)

lemma toPublicUrl_eq:
  "toPublicUrl opts cfg p =
     strip_trailing_slash (public_base opts cfg) @ [slash] @ strip_leading_slash p"
  by (simp add: toPublicUrl_def public_base_def Let_def ensure_trailing_slash_eq)

lemma strip_trailing_single:
  "\<not> suffix [slash, slash] b \<Longrightarrow> strip_trailing_slashes b = strip_trailing_slash b"
proof (induction b rule: rev_induct)
  case Nil
  show ?case by (simp add: strip_trailing_slashes_def strip_trailing_slash_def)
next
  case (snoc x xs)
  show ?case
  proof (cases "x = slash")
    case False
    then show ?thesis by (simp add: strip_trailing_slashes_def strip_trailing_slash_def)
  next
    case True
    with snoc.prems have "\<not> suffix [slash] xs"
      by (auto simp: suffix_def)
    then have "dropWhile (\<lambda>c. c = slash) (rev xs) = rev xs"
      by (cases xs rule: rev_cases) (auto simp: suffix_def)
    with True show ?thesis
      by (simp add: strip_trailing_slashes_def strip_trailing_slash_def)
  qed
qed

lemma strip_leading_single:
  "\<not> prefix [slash, slash] p \<Longrightarrow> dropWhile (\<lambda>c. c = slash) p = strip_leading_slash p"
proof (cases p)
  case Nil
  then show ?thesis by (simp add: strip_leading_slash_def)
next
  case (Cons x xs)
  assume "\<not> prefix [slash, slash] p"
  with Cons show ?thesis
    by (cases xs) (auto simp: strip_leading_slash_def)
qed

text \<open>
  C6, as amended. \<open>toPublicUrl\<close> returns the base without one separator at its end (if
  there is one), one separator, and the name without one separator at its start (if there
  is one). So when the base ends with at most one separator and the name starts with
  at most one, the URL has exactly one separator between them, whether or not the base
  ends with a separator and whether or not the name starts with one.
\<close>

theorem public_url_separator:
  "(let b = public_base opts cfg
    in toPublicUrl opts cfg p = strip_trailing_slash b @ ''/'' @ strip_leading_slash p \<and>
       (\<not> suffix ''//'' b \<and> \<not> prefix ''//'' p \<longrightarrow>
          toPublicUrl opts cfg p = one_separator_url b p))"
  using strip_trailing_single [of "public_base opts cfg"] strip_leading_single [of p]
  by (simp add: Let_def toPublicUrl_eq one_separator_url_def slash_def)

theorem public_url_separator_witness:
  "toPublicUrl (example_options\<lparr>publicBase := Some ''/Portals/_default/Skins/MySkin''\<rparr>)
     example_config ''/assets/home.abc123.js'' =
     ''/Portals/_default/Skins/MySkin/assets/home.abc123.js'' \<and>
   toPublicUrl (example_options\<lparr>publicBase := Some ''/Portals/_default/Skins/MySkin/''\<rparr>)
     example_config ''assets/home.abc123.js'' =
     ''/Portals/_default/Skins/MySkin/assets/home.abc123.js''"
proof -
  let ?o1 = "example_options\<lparr>publicBase := Some ''/Portals/_default/Skins/MySkin''\<rparr>"
  let ?o2 = "example_options\<lparr>publicBase := Some ''/Portals/_default/Skins/MySkin/''\<rparr>"
  have b1: "public_base ?o1 example_config = ''/Portals/_default/Skins/MySkin''"
    and b2: "public_base ?o2 example_config = ''/Portals/_default/Skins/MySkin/''"
    by (simp_all add: public_base_def)
  have s1: "\<not> suffix ''//'' ''/Portals/_default/Skins/MySkin'' \<and> \<not> prefix ''//'' ''/assets/home.abc123.js''"
    by code_simp
  have s2: "\<not> suffix ''//'' ''/Portals/_default/Skins/MySkin/'' \<and> \<not> prefix ''//'' ''assets/home.abc123.js''"
    by code_simp
  have a: "one_separator_url ''/Portals/_default/Skins/MySkin'' ''/assets/home.abc123.js'' =
      ''/Portals/_default/Skins/MySkin/assets/home.abc123.js''"
    by code_simp
  have b: "one_separator_url ''/Portals/_default/Skins/MySkin/'' ''assets/home.abc123.js'' =
      ''/Portals/_default/Skins/MySkin/assets/home.abc123.js''"
    by code_simp
  from public_url_separator [of ?o1 example_config "''/assets/home.abc123.js''"] s1
  have u1: "toPublicUrl ?o1 example_config ''/assets/home.abc123.js'' =
      one_separator_url ''/Portals/_default/Skins/MySkin'' ''/assets/home.abc123.js''"
    unfolding Let_def b1 by blast
  from public_url_separator [of ?o2 example_config "''assets/home.abc123.js''"] s2
  have u2: "toPublicUrl ?o2 example_config ''assets/home.abc123.js'' =
      one_separator_url ''/Portals/_default/Skins/MySkin/'' ''assets/home.abc123.js''"
    unfolding Let_def b2 by blast
  from u1 u2 show ?thesis
    unfolding a b by (rule conjI)
qed

text \<open>
  The claim as first stated covers every base and every name. A base that ends with two
  separators, or a name that starts with two, leaves two separators in the URL.
\<close>

theorem public_url_separator_counterexample:
  "toPublicUrl (example_options\<lparr>publicBase := Some ''/skin//''\<rparr>) example_config ''a.js'' =
     ''/skin//a.js'' \<and>
   toPublicUrl (example_options\<lparr>publicBase := Some ''/skin/''\<rparr>) example_config ''//a.js'' =
     ''/skin//a.js'' \<and>
   one_separator_url ''/skin//'' ''a.js'' = ''/skin/a.js'' \<and>
   one_separator_url ''/skin/'' ''//a.js'' = ''/skin/a.js''"
  by code_simp

section \<open>The tracked files are normalised\<close>

lemma of_char_slash: "(c = slash) = (of_char c = (47::nat))"
proof -
  have "of_char slash = (47::nat)" by (simp add: slash_def)
  then show ?thesis by (metis of_char_eq_iff)
qed

lemma of_char_backslash: "(c = backslash) = (of_char c = (92::nat))"
proof -
  have "of_char backslash = (92::nat)" by (simp add: backslash_def)
  then show ?thesis by (metis of_char_eq_iff)
qed

lemma of_char_lower_char:
  "of_char (lower_char c) =
     (let n = (of_char c :: nat)
      in if (65 \<le> n \<and> n \<le> 90) \<or> (192 \<le> n \<and> n \<le> 222 \<and> n \<noteq> 215) then n + 32 else n)"
  by (auto simp: lower_char_def Let_def)

lemma lower_char_idem: "lower_char (lower_char c) = lower_char c"
proof -
  have "of_char (lower_char (lower_char c)) = (of_char (lower_char c) :: nat)"
    by (simp add: of_char_lower_char [of "lower_char c"] Let_def) (auto simp: of_char_lower_char Let_def)
  then show ?thesis by (simp only: of_char_eq_iff)
qed

lemma lower_char_slash: "(lower_char c = slash) = (c = slash)"
  by (auto simp: of_char_slash of_char_lower_char Let_def)

lemma lower_char_backslash: "(lower_char c = backslash) = (c = backslash)"
  by (auto simp: of_char_backslash of_char_lower_char Let_def)

lemma slash_neq_backslash: "slash \<noteq> backslash"
  by (simp add: slash_def backslash_def)

lemma lower_char_slash_self: "lower_char slash = slash"
  by (simp add: lower_char_slash)

lemma lower_char_backslash_self: "lower_char backslash = backslash"
  by (simp add: lower_char_backslash)

lemma slash_lower_char: "(slash = lower_char c) = (c = slash)"
  using lower_char_slash [of c] by auto

lemma backslash_lower_char: "(backslash = lower_char c) = (c = backslash)"
  using lower_char_backslash [of c] by auto

lemma toLowerCase_idem: "toLowerCase (toLowerCase s) = toLowerCase s"
  by (simp add: toLowerCase_def lower_char_idem)

lemma strip_trailing_slashes_lower:
  "strip_trailing_slashes (toLowerCase s) = toLowerCase (strip_trailing_slashes s)"
  by (simp add: strip_trailing_slashes_def toLowerCase_def rev_map dropWhile_map
      comp_def lower_char_slash)

lemma backslashes_to_slashes_lower:
  "backslashes_to_slashes (toLowerCase s) = toLowerCase (backslashes_to_slashes s)"
  by (induction s)
    (simp_all add: backslashes_to_slashes_def toLowerCase_def lower_char_backslash
      lower_char_slash_self)

lemma no_backslash_after: "backslash \<notin> set (backslashes_to_slashes s)"
  using slash_neq_backslash by (auto simp: backslashes_to_slashes_def)

lemma backslashes_to_slashes_id: "backslash \<notin> set s \<Longrightarrow> backslashes_to_slashes s = s"
  by (induction s) (auto simp: backslashes_to_slashes_def)

lemma set_strip_trailing_slashes: "set (strip_trailing_slashes s) \<subseteq> set s"
  by (metis strip_trailing_slashes_def set_dropWhileD set_rev subsetI)

lemma backslash_lower: "backslash \<in> set (toLowerCase s) \<longleftrightarrow> backslash \<in> set s"
  by (auto simp: toLowerCase_def backslash_lower_char image_iff lower_char_backslash_self
      intro: bexI [where x = backslash])

lemma strip_trailing_slashes_no_suffix: "\<not> suffix [slash] (strip_trailing_slashes s)"
proof
  assume "suffix [slash] (strip_trailing_slashes s)"
  then obtain zs where "rev (dropWhile (\<lambda>c. c = slash) (rev s)) = zs @ [slash]"
    by (auto simp: suffix_def strip_trailing_slashes_def)
  then have "dropWhile (\<lambda>c. c = slash) (rev s) = slash # rev zs"
    by (metis rev.simps(2) rev_rev_ident)
  then show False
    by (metis (full_types) hd_dropWhile list.sel(1) list.distinct(1))
qed

lemma strip_trailing_slashes_id: "\<not> suffix [slash] s \<Longrightarrow> strip_trailing_slashes s = s"
  by (cases s rule: rev_cases) (auto simp: strip_trailing_slashes_def suffix_def)

lemma suffix_slash_lower: "suffix [slash] (toLowerCase s) \<longleftrightarrow> suffix [slash] s"
  by (cases s rule: rev_cases) (auto simp: toLowerCase_def slash_lower_char lower_char_slash_self)

lemma norm_fixed_point_iff:
  "norm p = p \<longleftrightarrow> backslash \<notin> set p \<and> \<not> suffix [slash] p \<and> toLowerCase p = p"
proof
  assume fp: "norm p = p"
  have "backslash \<notin> set (norm p)"
    using no_backslash_after [of p] set_strip_trailing_slashes [of "backslashes_to_slashes p"]
    by (auto simp: norm_def backslash_lower)
  moreover have "\<not> suffix [slash] (norm p)"
    by (simp add: norm_def suffix_slash_lower strip_trailing_slashes_no_suffix)
  moreover have "toLowerCase (norm p) = norm p"
    by (simp add: norm_def toLowerCase_idem)
  ultimately show "backslash \<notin> set p \<and> \<not> suffix [slash] p \<and> toLowerCase p = p"
    by (simp add: fp)
next
  assume "backslash \<notin> set p \<and> \<not> suffix [slash] p \<and> toLowerCase p = p"
  then show "norm p = p"
    by (simp add: norm_def backslashes_to_slashes_id strip_trailing_slashes_id)
qed

lemma norm_idem: "norm (norm p) = norm p"
proof -
  have "backslash \<notin> set (norm p)"
    using no_backslash_after [of p] set_strip_trailing_slashes [of "backslashes_to_slashes p"]
    by (auto simp: norm_def backslash_lower)
  moreover have "\<not> suffix [slash] (norm p)"
    by (simp add: norm_def suffix_slash_lower strip_trailing_slashes_no_suffix)
  moreover have "toLowerCase (norm p) = norm p"
    by (simp add: norm_def toLowerCase_idem)
  ultimately show ?thesis by (simp add: norm_fixed_point_iff)
qed

lemma norm_lower: "norm (toLowerCase p) = norm p"
  by (simp add: norm_def backslashes_to_slashes_lower strip_trailing_slashes_lower toLowerCase_idem)

lemma path_isAbsolute_lower: "path_isAbsolute (toLowerCase p) = path_isAbsolute p"
  by (cases p) (auto simp: path_isAbsolute_def toLowerCase_def slash_lower_char lower_char_slash_self)

lemma absPath_absolute: "path_isAbsolute p \<Longrightarrow> absPath cwd (toLowerCase p) = norm p"
  by (simp add: absPath_def path_isAbsolute_lower norm_lower)

lemma list_all_norm: "list_all (\<lambda>p. norm p = p) (map norm found)"
  by (simp add: list_all_iff norm_idem)

lemma config_allAscxFiles:
  "config opts cwd st userOutDir cmd fg w = Some (st', r) \<Longrightarrow>
   \<exists>ig. allAscxFiles st' = map norm (fg ig)"
  by (cases cmd)
    (auto simp: config_def Let_def split: option.splits prod.splits if_splits)

lemma handle_event_allAscxFiles:
  "handle_event opts cwd cfg server fg st ev w = (e, st', w') \<Longrightarrow>
   allAscxFiles st' = allAscxFiles st \<or> (\<exists>ig. allAscxFiles st' = map norm (fg ig))"
  by (cases ev)
    (auto simp: onAdd_def onUnlink_def Let_def split: prod.splits option.splits if_splits)

text \<open>
  C10. Every path in \<open>allAscxFiles\<close> is a fixed point of \<open>norm\<close>: the \<open>config\<close> hook
  stores such paths only, and every watch event keeps the property (the \<open>add\<close> and
  \<open>unlink\<close> handlers store a fresh list of normalised paths). A fixed point of
  \<open>norm\<close> is a path without backslashes, without a separator at its end and without
  capital letters. The change handler looks up the normalised event path, itself a fixed
  point; so for an absolute event path the lookup in the normalised list succeeds exactly
  when some file that the search found has the same normal form.
\<close>

theorem tracked_files_normalised:
  "(\<forall>st' r. config opts cwd st userOutDir cmd fg w = Some (st', r) \<longrightarrow>
      list_all (\<lambda>p. norm p = p) (allAscxFiles st')) \<and>
   (\<forall>e st' w'. list_all (\<lambda>p. norm p = p) (allAscxFiles st) \<and>
      handle_event opts cwd cfg server fg st ev w = (e, st', w') \<longrightarrow>
      list_all (\<lambda>p. norm p = p) (allAscxFiles st')) \<and>
   (norm p = p \<longleftrightarrow> backslash \<notin> set p \<and> \<not> suffix ''/'' p \<and> toLowerCase p = p) \<and>
   norm (absPath cwd (toLowerCase file)) = absPath cwd (toLowerCase file) \<and>
   (path_isAbsolute file \<longrightarrow>
      (absPath cwd (toLowerCase file) \<in> set (map norm found) \<longleftrightarrow>
       (\<exists>g \<in> set found. norm g = norm file)))"
proof -
  have a: "list_all (\<lambda>p. norm p = p) (allAscxFiles st')"
    if "config opts cwd st userOutDir cmd fg w = Some (st', r)" for st' r
    using config_allAscxFiles [OF that] list_all_norm by auto
  have b: "list_all (\<lambda>p. norm p = p) (allAscxFiles st')"
    if "list_all (\<lambda>p. norm p = p) (allAscxFiles st)"
      and "handle_event opts cwd cfg server fg st ev w = (e, st', w')" for e st' w'
    using handle_event_allAscxFiles [OF that(2)] that(1) list_all_norm by auto
  have c: "norm p = p \<longleftrightarrow> backslash \<notin> set p \<and> \<not> suffix ''/'' p \<and> toLowerCase p = p"
    using norm_fixed_point_iff [of p] by (simp add: slash_def)
  have d: "norm (absPath cwd (toLowerCase file)) = absPath cwd (toLowerCase file)"
    by (simp add: absPath_def norm_idem)
  have e: "absPath cwd (toLowerCase file) \<in> set (map norm found) \<longleftrightarrow>
      (\<exists>g \<in> set found. norm g = norm file)" if "path_isAbsolute file"
    using absPath_absolute [OF that, of cwd] by (auto intro: rev_image_eqI)
  from a b c d e show ?thesis by blast
qed

theorem tracked_files_normalised_witness:
  "map_option (\<lambda>r. allAscxFiles (fst r))
     (config example_options ''/proj'' example_state None CmdServe
        (\<lambda>ignore. [''/Proj/Skin/A.ascx/'']) example_world) = Some [''/proj/skin/a.ascx''] \<and>
   norm ''/proj/skin/a.ascx'' = ''/proj/skin/a.ascx'' \<and>
   absPath ''/proj'' (toLowerCase ''/PROJ/skin/a.ASCX'') \<in> set (map norm [''/Proj/Skin/A.ascx/''])"
proof -
  obtain st' r where cfg: "config example_options ''/proj'' example_state None CmdServe
      (\<lambda>ignore. [''/Proj/Skin/A.ascx/'']) example_world = Some (st', r)"
    by (simp add: config_def Let_def)
  have files: "map_option (\<lambda>r. allAscxFiles (fst r))
     (config example_options ''/proj'' example_state None CmdServe
        (\<lambda>ignore. [''/Proj/Skin/A.ascx/'']) example_world) = Some [''/proj/skin/a.ascx'']"
    by code_simp
  with cfg have st': "allAscxFiles st' = [''/proj/skin/a.ascx'']" by simp
  have abs: "path_isAbsolute ''/PROJ/skin/a.ASCX''" by code_simp
  have same: "norm ''/Proj/Skin/A.ascx/'' = norm ''/PROJ/skin/a.ASCX''" by code_simp
  note inst = tracked_files_normalised [of example_options "''/proj''" example_state None CmdServe
      "\<lambda>ignore. [''/Proj/Skin/A.ascx/'']" example_world example_config example_server
      "Change ''/PROJ/skin/a.ASCX''" "''/proj/skin/a.ascx''" "''/PROJ/skin/a.ASCX''"
      "[''/Proj/Skin/A.ascx/'']"]
  from inst cfg st' have "norm ''/proj/skin/a.ascx'' = ''/proj/skin/a.ascx''"
    by auto
  moreover from inst abs same
  have "absPath ''/proj'' (toLowerCase ''/PROJ/skin/a.ASCX'') \<in> set (map norm [''/Proj/Skin/A.ascx/''])"
    by auto
  ultimately show ?thesis using files by simp
qed

section \<open>The reload signal comes after the writes\<close>

lemma writeAllDevAscx_loop_trace:
  "writeAllDevAscx_loop opts cwd devOutAbs devOrigin fs w = (e, w') \<Longrightarrow>
   \<exists>ws. trace w' = trace w @ ws \<and> FullReload \<notin> set ws"
proof (induction fs arbitrary: w)
  case Nil
  then show ?case by simp
next
  case (Cons f fs)
  show ?case
  proof (cases "files w f")
    case None
    with Cons.prems show ?thesis by (simp add: readFileSync_def)
  next
    case (Some original)
    let ?w1 = "writeMirrored opts cwd devOutAbs f
        (rewriteAscxForDev opts cwd original f devOrigin) w"
    from Cons.prems Some have "writeAllDevAscx_loop opts cwd devOutAbs devOrigin fs ?w1 = (e, w')"
      by (simp add: readFileSync_def Let_def)
    from Cons.IH [OF this] obtain ws where "trace w' = trace ?w1 @ ws" "FullReload \<notin> set ws"
      by blast
    then show ?thesis by (simp add: trace_writeMirrored)
  qed
qed

lemma writeAllDevAscx_trace:
  "writeAllDevAscx opts cwd st server w = (e, w') \<Longrightarrow>
   \<exists>ws. trace w' = trace w @ ws \<and> FullReload \<notin> set ws"
proof -
  assume "writeAllDevAscx opts cwd st server w = (e, w')"
  then obtain d where "writeAllDevAscx_loop opts cwd d (computeDevOrigin opts server)
      (allAscxFiles st) (mkdirSync d w) = (e, w')"
    by (simp add: writeAllDevAscx_def Let_def)
  from writeAllDevAscx_loop_trace [OF this] show ?thesis
    by (auto simp: mkdirSync_def)
qed

lemma mirrored_then_reload:
  "\<exists>ws. FullReload \<notin> set ws \<and>
        trace (reload (writeMirrored opts cwd d a c w)) = trace w @ ws @ [FullReload]"
proof -
  let ?ws = "[MkdirSync (path_dirname (outPath opts cwd d a)), WriteFileSync (outPath opts cwd d a) c]"
  have "FullReload \<notin> set ?ws" by simp
  moreover have "trace (reload (writeMirrored opts cwd d a c w)) = trace w @ ?ws @ [FullReload]"
    by (simp add: reload_def trace_writeMirrored)
  ultimately show ?thesis by blast
qed

lemma nothing_done:
  "\<exists>ws. FullReload \<notin> set ws \<and>
        (trace w = trace w @ ws \<or> e = None \<and> trace w = trace w @ ws @ [FullReload])"
  by (rule exI [of _ "[]"]) simp

lemma onChange_trace:
  assumes "onChange opts cwd cfg server st path w = (e, w')"
  shows "\<exists>ws. FullReload \<notin> set ws \<and>
        (trace w' = trace w @ ws \<or> e = None \<and> trace w' = trace w @ ws @ [FullReload])"
proof -
  define a where "a = absPath cwd (toLowerCase path)"
  define pub where "pub = absPath cwd (toLowerCase (publicDir cfg)) @ ''/''"
  define out where "out = absPath cwd (devOutDir st)"
  have eq: "onChange opts cwd cfg server st path w =
      (if prefix pub a then
         (case files w a of
            None \<Rightarrow> (Some (ENOENT a), w)
          | Some original \<Rightarrow>
              (None, reload (writeMirrored opts cwd out (absPath cwd (remove_first pub a)) original w)))
       else if suffix ''.ascx'' a then
         (if a \<notin> set (allAscxFiles st) then (None, w)
          else (case files w a of
                  None \<Rightarrow> (Some (ENOENT a), w)
                | Some original \<Rightarrow>
                    (None, reload (writeMirrored opts cwd out a
                       (rewriteAscxForDev opts cwd original a (computeDevOrigin opts server)) w))))
       else (None, w))"
    unfolding onChange_def Let_def a_def pub_def out_def readFileSync_def
    by (simp split: option.splits)
  show ?thesis
  proof (cases "files w a")
    case None
    with assms eq have "w' = w" by (simp split: if_splits)
    with nothing_done [of w e] show ?thesis by simp
  next
    case (Some original)
    show ?thesis
    proof (cases "prefix pub a")
      case True
      with assms eq Some have "e = None"
        "w' = reload (writeMirrored opts cwd out (absPath cwd (remove_first pub a)) original w)"
        by simp_all
      with mirrored_then_reload [of opts cwd out "absPath cwd (remove_first pub a)" original w]
      show ?thesis by auto
    next
      case False
      show ?thesis
      proof (cases "suffix ''.ascx'' a \<and> a \<in> set (allAscxFiles st)")
        case True
        with assms eq Some False have "e = None"
          "w' = reload (writeMirrored opts cwd out a
                  (rewriteAscxForDev opts cwd original a (computeDevOrigin opts server)) w)"
          by simp_all
        with mirrored_then_reload [of opts cwd out a
            "rewriteAscxForDev opts cwd original a (computeDevOrigin opts server)" w]
        show ?thesis by auto
      next
        case no: False
        with assms eq False have "w' = w" by (auto split: if_splits)
        with nothing_done [of w e] show ?thesis by simp
      qed
    qed
  qed
qed

lemma rescan_trace:
  assumes "(case writeAllDevAscx opts cwd stx server w of
              (Some e, w') \<Rightarrow> (Some e, stx, w')
            | (None, w') \<Rightarrow> (None, stx, reload w')) = (e, st', w')"
  shows "\<exists>ws. FullReload \<notin> set ws \<and>
        (trace w' = trace w @ ws \<or> e = None \<and> trace w' = trace w @ ws @ [FullReload])"
proof -
  obtain e1 w1 where run: "writeAllDevAscx opts cwd stx server w = (e1, w1)"
    by (cases "writeAllDevAscx opts cwd stx server w")
  from writeAllDevAscx_trace [OF run] obtain ws where
    ws: "trace w1 = trace w @ ws" "FullReload \<notin> set ws" by blast
  from assms run ws show ?thesis
    by (cases e1) (auto simp: reload_def)
qed

text \<open>
  C8. The effects of the handler of a watch event (a change, an \<open>add\<close> or an
  \<open>unlink\<close>) are directory creations and file writes, followed by at most one reload
  signal, which is then the last effect and is sent only when nothing was thrown. So every
  mirrored write of the event is finished before its reload signal is sent.
\<close>

theorem reload_follows_writes:
  assumes "handle_event opts cwd cfg server fg st ev w = (e, st', w')"
  shows "\<exists>ws. FullReload \<notin> set ws \<and>
           (trace w' = trace w @ ws \<or> e = None \<and> trace w' = trace w @ ws @ [FullReload])"
proof (cases ev)
  case (Change path)
  with assms obtain "onChange opts cwd cfg server st path w = (e, w')"
    by (auto split: prod.splits)
  then show ?thesis by (rule onChange_trace)
next
  case (Add path)
  show ?thesis
  proof (cases "suffix ''.ascx'' (toLowerCase path)")
    case True
    with assms Add show ?thesis
      by (intro rescan_trace [where stx = "st\<lparr>allAscxFiles := map norm (fg (ignore st))\<rparr>"])
        (simp add: onAdd_def Let_def)
  next
    case False
    with assms Add show ?thesis by (auto simp: onAdd_def)
  qed
next
  case (Unlink path)
  show ?thesis
  proof (cases "suffix ''.ascx'' (toLowerCase path)")
    case True
    with assms Unlink show ?thesis
      by (intro rescan_trace [where stx = "st\<lparr>allAscxFiles := map norm (fg (ignore st))\<rparr>"])
        (simp add: onUnlink_def Let_def)
  next
    case False
    with assms Unlink show ?thesis by (auto simp: onUnlink_def)
  qed
qed

theorem reload_follows_writes_witness:
  "fst (handle_event example_options ''/proj'' example_config example_server (\<lambda>ignore. [])
          example_state (Change ''/Proj/A.ascx'') example_world) = None \<and>
   (\<exists>ws. written_paths ws = [''/proj/.dnn/a.ascx''] \<and> FullReload \<notin> set ws \<and>
      trace (snd (snd (handle_event example_options ''/proj'' example_config example_server
                         (\<lambda>ignore. []) example_state (Change ''/Proj/A.ascx'') example_world))) =
        ws @ [FullReload])"
proof -
  let ?R = "handle_event example_options ''/proj'' example_config example_server (\<lambda>ignore. [])
      example_state (Change ''/Proj/A.ascx'') example_world"
  obtain e st' w' where r: "?R = (e, st', w')"
    by (cases ?R)
  have none: "fst ?R = None"
    by code_simp
  have paths: "written_paths (trace (snd (snd ?R))) = [''/proj/.dnn/a.ascx'']"
    by code_simp
  have final: "last (trace (snd (snd ?R))) = FullReload"
    by code_simp
  have t0: "trace example_world = []"
    by (simp add: example_world_def)
  from reload_follows_writes [OF r] t0 obtain ws where
    ws: "FullReload \<notin> set ws" and
    shape: "trace w' = ws \<or> trace w' = ws @ [FullReload]"
    by auto
  from shape have "trace w' = ws @ [FullReload]"
  proof
    assume plain: "trace w' = ws"
    with paths r have "ws \<noteq> []" by auto
    with plain final r have "FullReload \<in> set ws"
      by (metis last_in_set snd_conv)
    with ws show ?thesis by simp
  qed
  moreover from this paths r have "written_paths ws = [''/proj/.dnn/a.ascx'']"
    by (simp add: written_paths_append)
  ultimately show ?thesis
    using none ws r by auto
qed

section \<open>Mirrored files stay inside the output root\<close>

lemma plain_is_segment: "plain_segment x \<Longrightarrow> segment x"
  by (simp add: plain_segment_def segment_def)

lemma split_slash_nonempty: "split_slash s \<noteq> []"
  by (induction s) (auto split: list.splits)

lemma split_slash_append: "split_slash (x @ slash # y) = split_slash x @ split_slash y"
proof (induction x)
  case Nil
  show ?case by simp
next
  case (Cons c x)
  obtain z zs where "split_slash x = z # zs"
    using split_slash_nonempty [of x] by (cases "split_slash x") auto
  with Cons show ?case by simp
qed

lemma split_slash_slashfree: "slash \<notin> set s \<Longrightarrow> split_slash s = [s]"
  by (induction s) auto

lemma split_slash_pieces: "x \<in> set (split_slash s) \<Longrightarrow> slash \<notin> set x"
proof (induction s arbitrary: x)
  case Nil
  then show ?case by simp
next
  case (Cons c s)
  obtain z zs where zz: "split_slash s = z # zs"
    using split_slash_nonempty [of s] by (cases "split_slash s") auto
  show ?case
  proof (cases "c = slash")
    case True
    with Cons show ?thesis by auto
  next
    case False
    with Cons.prems zz have "x = c # z \<or> x \<in> set zs" by simp
    with Cons.IH zz False show ?thesis by auto
  qed
qed

lemma split_slash_join:
  "T \<noteq> [] \<Longrightarrow> \<forall>t \<in> set T. slash \<notin> set t \<Longrightarrow> split_slash (join ''/'' T) = T"
proof (induction "''/''" T rule: join.induct)
  case 1
  then show ?case by simp
next
  case (2 x)
  then show ?case by (simp add: split_slash_slashfree)
next
  case (3 x y ys)
  have "split_slash (x @ slash # join ''/'' (y # ys)) = split_slash x @ split_slash (join ''/'' (y # ys))"
    by (rule split_slash_append)
  with 3 show ?case by (simp add: split_slash_slashfree slash_def)
qed

lemma normalize_segments_append:
  "normalize_segments a acc (xs @ ys) = normalize_segments a (rev (normalize_segments a acc xs)) ys"
  by (induction xs arbitrary: acc) (auto split: list.splits)

lemma normalize_segments_plain:
  "\<forall>t \<in> set T. plain_segment t \<Longrightarrow> normalize_segments a acc T = rev acc @ T"
  by (induction T arbitrary: acc) (auto simp: plain_segment_def)

lemma normalize_segments_segment:
  "\<forall>x \<in> set acc. segment x \<Longrightarrow> \<forall>x \<in> set xs. slash \<notin> set x \<Longrightarrow>
   \<forall>y \<in> set (normalize_segments a acc xs). segment y"
proof (induction xs arbitrary: acc)
  case Nil
  then show ?case by simp
next
  case (Cons x xs)
  have dd: "segment ''..''" by (simp add: segment_def slash_def)
  from Cons.prems have rest: "\<forall>x \<in> set xs. slash \<notin> set x" by simp
  show ?case
  proof (cases "x = [] \<or> x = ''.''")
    case True
    with Cons.IH [OF Cons.prems(1) rest] show ?thesis by simp
  next
    case False
    show ?thesis
    proof (cases "x = ''..''")
      case True
      show ?thesis
      proof (cases acc)
        case Nil
        have "\<forall>x \<in> set (if a then [''..''] else []). segment x" using dd by simp
        from Cons.IH [OF this rest] Nil True show ?thesis by simp
      next
        case (Cons y ys)
        have 1: "\<forall>x \<in> set (if a then ''..'' # acc else acc). segment x"
          using dd Cons.prems(1) by simp
        have 2: "\<forall>x \<in> set ys. segment x" using Cons.prems(1) Cons by simp
        from Cons.IH [OF 1 rest] Cons.IH [OF 2 rest] Cons True show ?thesis by simp
      qed
    next
      case nd: False
      from False Cons.prems have "\<forall>y \<in> set (x # acc). segment y"
        by (simp add: segment_def)
      from Cons.IH [OF this rest] False nd show ?thesis by simp
    qed
  qed
qed

lemma normalize_segments_no_above:
  "\<forall>x \<in> set acc. plain_segment x \<Longrightarrow> \<forall>x \<in> set xs. slash \<notin> set x \<Longrightarrow>
   \<forall>y \<in> set (normalize_segments False acc xs). plain_segment y"
proof (induction xs arbitrary: acc)
  case Nil
  then show ?case by simp
next
  case (Cons x xs)
  from Cons.prems have rest: "\<forall>x \<in> set xs. slash \<notin> set x" by simp
  show ?case
  proof (cases "x = [] \<or> x = ''.''")
    case True
    with Cons.IH [OF Cons.prems(1) rest] show ?thesis by simp
  next
    case False
    show ?thesis
    proof (cases "x = ''..''")
      case True
      show ?thesis
      proof (cases acc)
        case Nil
        have "\<forall>x \<in> set ([] :: string list). plain_segment x" by simp
        from Cons.IH [OF this rest] Nil True show ?thesis by simp
      next
        case (Cons y ys)
        with Cons.prems(1) have ny: "y \<noteq> ''..''" by (auto simp: plain_segment_def)
        have 2: "\<forall>x \<in> set ys. plain_segment x" using Cons.prems(1) Cons by simp
        from Cons.IH [OF 2 rest] Cons True ny show ?thesis by simp
      qed
    next
      case nd: False
      from False nd Cons.prems have "\<forall>y \<in> set (x # acc). plain_segment y"
        by (simp add: plain_segment_def)
      from Cons.IH [OF this rest] False nd show ?thesis by simp
    qed
  qed
qed

lemma join_nonempty: "N \<noteq> [] \<Longrightarrow> \<forall>t \<in> set N. segment t \<Longrightarrow> join ''/'' N \<noteq> []"
  by (induction "''/''" N rule: join.induct) (auto simp: segment_def)

lemma join_not_absolute:
  "N \<noteq> [] \<Longrightarrow> \<forall>t \<in> set N. segment t \<Longrightarrow> \<not> path_isAbsolute (join ''/'' N)"
proof (induction "''/''" N rule: join.induct)
  case 1
  then show ?case by simp
next
  case (2 x)
  then show ?case by (cases x) (auto simp: path_isAbsolute_def segment_def)
next
  case (3 x y ys)
  then show ?case by (cases x) (auto simp: path_isAbsolute_def segment_def)
qed

lemma path_segments_join: "\<forall>t \<in> set N. segment t \<Longrightarrow> path_segments (join ''/'' N) = N"
proof (cases N)
  case Nil
  then show ?thesis by (simp add: path_segments_def)
next
  case (Cons x xs)
  assume seg: "\<forall>t \<in> set N. segment t"
  with Cons have "split_slash (join ''/'' N) = N"
    by (intro split_slash_join) (auto simp: segment_def)
  moreover from seg have "filter (\<lambda>x. x \<noteq> []) N = N"
    by (simp add: segment_def)
  ultimately show ?thesis by (simp add: path_segments_def)
qed

lemma path_segments_leading: "path_segments (slash # s) = path_segments s"
  by (simp add: path_segments_def)

lemma path_segments_trailing: "path_segments (s @ [slash]) = path_segments s"
  using split_slash_append [of s "[]"] by (simp add: path_segments_def)

lemma split_slash_segments:
  "\<forall>y \<in> set (normalize_segments a [] (split_slash J)). segment y"
  by (rule normalize_segments_segment) (auto dest: split_slash_pieces)

lemma path_isAbsolute_simps:
  "path_isAbsolute ''/''" "\<not> path_isAbsolute ''./''" "\<not> path_isAbsolute ''.''"
  "path_isAbsolute (CHR ''/'' # x)" "\<not> path_isAbsolute []"
  by (simp_all add: path_isAbsolute_def slash_def)

lemma path_isAbsolute_append: "x \<noteq> [] \<Longrightarrow> path_isAbsolute (x @ y) = path_isAbsolute x"
  by (cases x) (simp_all add: path_isAbsolute_def)

lemma join_no_trailing_slash:
  "S \<noteq> [] \<Longrightarrow> \<forall>t \<in> set S. segment t \<Longrightarrow> \<not> suffix [slash] (join ''/'' S)"
proof (induction "''/''" S rule: join.induct)
  case 1
  then show ?case by simp
next
  case (2 x)
  then show ?case by (auto simp: segment_def suffix_def)
next
  case (3 x y ys)
  from 3 have "join ''/'' (y # ys) \<noteq> []" by (intro join_nonempty) auto
  then obtain q qs where "join ''/'' (y # ys) = qs @ [q]"
    by (cases "join ''/'' (y # ys)" rule: rev_cases) auto
  with 3 show ?case by (auto simp: suffix_def)
qed

lemma drop_common_rest: "drop_common xs ys = (fs, ts) \<Longrightarrow> set ts \<subseteq> set ys"
  by (induction xs ys rule: drop_common.induct) (auto split: if_splits)

lemma join_parent_prefix: "k \<noteq> 0 \<Longrightarrow> prefix ''..'' (join ''/'' (replicate k ''..'' @ ts))"
proof (cases k)
  case 0
  assume "k \<noteq> 0"
  with 0 show ?thesis by simp
next
  case (Suc n)
  then show ?thesis by (cases "replicate n ''..'' @ ts") simp_all
qed

lemma root_segments_empty: "root_segments [] = []"
  by (simp add: root_segments_def)

lemma path_segments_roots:
  "path_segments ''/'' = []" "path_segments ''./'' = [''.'']" "path_segments ''.'' = [''.'']"
  by (simp_all add: path_segments_def slash_def)

lemma path_normalize_segments:
  assumes "J \<noteq> []"
  defines "N \<equiv> normalize_segments (\<not> path_isAbsolute J) [] (split_slash J)"
  shows "path_isAbsolute (path_normalize J) = path_isAbsolute J"
    and "path_segments (path_normalize J) =
           (if N = [] then (if path_isAbsolute J then [] else [''.'']) else N)"
proof -
  have seg: "\<forall>y \<in> set N. segment y"
    unfolding N_def by (rule split_slash_segments)
  have q: "normalizeString J (\<not> path_isAbsolute J) = join ''/'' N"
    by (simp add: normalizeString_def N_def)
  have empty: "join ''/'' N = [] \<longleftrightarrow> N = []"
    using join_nonempty [OF _ seg] by (cases N) auto
  have pn: "path_normalize J =
      (if join ''/'' N = []
       then (if path_isAbsolute J then ''/'' else if suffix [slash] J then ''./'' else ''.'')
       else (if path_isAbsolute J then ''/'' else []) @ join ''/'' N @
            (if suffix [slash] J then ''/'' else []))"
    using assms(1) unfolding path_normalize_def Let_def q by simp
  show "path_isAbsolute (path_normalize J) = path_isAbsolute J"
  proof (cases "N = []")
    case True
    then show ?thesis
      unfolding pn by (simp add: path_isAbsolute_simps)
  next
    case False
    with empty have ne: "join ''/'' N \<noteq> []" by simp
    from join_not_absolute [OF False seg] ne show ?thesis
      unfolding pn by (simp add: path_isAbsolute_simps path_isAbsolute_append)
  qed
  show "path_segments (path_normalize J) =
      (if N = [] then (if path_isAbsolute J then [] else [''.'']) else N)"
  proof (cases "N = []")
    case True
    then show ?thesis
      unfolding pn by (simp add: path_segments_roots)
  next
    case False
    with empty have ne: "join ''/'' N \<noteq> []" by simp
    have "path_segments (pre @ join ''/'' N @ post) = N"
      if "pre = [] \<or> pre = [slash]" "post = [] \<or> post = [slash]" for pre post
    proof -
      have "path_segments (pre @ join ''/'' N @ post) = path_segments (join ''/'' N @ post)"
        using that(1) by (auto simp: path_segments_leading)
      also have "\<dots> = path_segments (join ''/'' N)"
        using that(2) by (auto simp: path_segments_trailing)
      finally show ?thesis by (simp add: path_segments_join seg)
    qed
    from this [of "if path_isAbsolute J then ''/'' else []" "if suffix [slash] J then ''/'' else []"]
    show ?thesis
      unfolding pn using ne False by (simp add: slash_def)
  qed
qed

lemma path_join_segments:
  fixes outDir :: string
  assumes "\<forall>x \<in> set X. segment x"
  defines "N \<equiv> normalize_segments (\<not> path_isAbsolute outDir) (rev (root_segments outDir)) X"
  shows "path_isAbsolute (path_join outDir (join ''/'' X)) = path_isAbsolute outDir"
    and "path_segments (path_join outDir (join ''/'' X)) =
           (if N = [] then (if path_isAbsolute outDir then [] else [''.'']) else N)"
proof -
  have both: "path_isAbsolute (path_join outDir (join ''/'' X)) = path_isAbsolute outDir \<and>
      path_segments (path_join outDir (join ''/'' X)) =
        (if N = [] then (if path_isAbsolute outDir then [] else [''.'']) else N)"
  proof (cases "X = []")
    case True
    show ?thesis
    proof (cases "outDir = []")
      case True
      with \<open>X = []\<close> show ?thesis
        by (simp add: N_def path_join_def root_segments_empty path_isAbsolute_simps
            path_segments_roots)
    next
      case False
      with \<open>X = []\<close> have pj: "path_join outDir (join ''/'' X) = path_normalize outDir"
        by (simp add: path_join_def)
      from \<open>X = []\<close> have n: "N = normalize_segments (\<not> path_isAbsolute outDir) [] (split_slash outDir)"
        by (simp add: N_def root_segments_def)
      from path_normalize_segments [OF False] show ?thesis
        unfolding pj n by simp
    qed
  next
    case ne: False
    from join_nonempty [OF ne assms(1)] have rel: "join ''/'' X \<noteq> []" .
    have sp: "split_slash (join ''/'' X) = X"
      using split_slash_join [OF ne] assms(1) by (simp add: segment_def)
    show ?thesis
    proof (cases "outDir = []")
      case True
      with rel have pj: "path_join outDir (join ''/'' X) = path_normalize (join ''/'' X)"
        by (simp add: path_join_def)
      have na: "\<not> path_isAbsolute (join ''/'' X)" by (rule join_not_absolute [OF ne assms(1)])
      from True have n: "N = normalize_segments (\<not> path_isAbsolute (join ''/'' X)) []
          (split_slash (join ''/'' X))"
        by (simp add: N_def root_segments_empty path_isAbsolute_simps sp na)
      from path_normalize_segments [OF rel] na True show ?thesis
        unfolding pj n by (simp add: path_isAbsolute_simps)
    next
      case False
      let ?J = "outDir @ slash # join ''/'' X"
      from False rel have pj: "path_join outDir (join ''/'' X) = path_normalize ?J"
        by (simp add: path_join_def slash_def)
      from False have ab: "path_isAbsolute ?J = path_isAbsolute outDir"
        by (rule path_isAbsolute_append)
      have J: "?J \<noteq> []" by simp
      have n: "N = normalize_segments (\<not> path_isAbsolute ?J) [] (split_slash ?J)"
        by (simp add: N_def ab split_slash_append sp normalize_segments_append [of _ "[]"]
            root_segments_def)
      from path_normalize_segments [OF J] ab show ?thesis
        unfolding pj n by simp
    qed
  qed
  from both show "path_isAbsolute (path_join outDir (join ''/'' X)) = path_isAbsolute outDir"
    by (rule conjunct1)
  from both show "path_segments (path_join outDir (join ''/'' X)) =
      (if N = [] then (if path_isAbsolute outDir then [] else [''.'']) else N)"
    by (rule conjunct2)
qed

lemma not_inside_short:
  "length (path_segments p) \<le> length (root_segments outDir) \<Longrightarrow> \<not> inside outDir p"
  by (simp add: inside_def Let_def)

lemma not_inside_dots:
  assumes "path_segments p = xs @ [d]" "\<not> plain_segment d"
  shows "\<not> inside outDir p"
proof
  assume "inside outDir p"
  then have ne: "drop (length (root_segments outDir)) (xs @ [d]) \<noteq> []"
    and pl: "list_all plain_segment (drop (length (root_segments outDir)) (xs @ [d]))"
    using assms(1) by (simp_all add: inside_def Let_def)
  from ne have "d \<in> set (drop (length (root_segments outDir)) (xs @ [d]))"
    by (metis last_drop last_in_set last_snoc drop_eq_Nil not_le)
  with pl assms(2) show False by (simp add: list_all_iff)
qed

lemma inside_root_itself:
  assumes "path_isAbsolute p = path_isAbsolute outDir"
    and "path_segments p =
           (if root_segments outDir = [] then (if path_isAbsolute outDir then [] else [''.''])
            else root_segments outDir)"
  shows "\<not> inside outDir p"
proof (cases "root_segments outDir = [] \<and> \<not> path_isAbsolute outDir")
  case True
  with assms(2) have "path_segments p = [] @ [''.'']" by simp
  then show ?thesis by (rule not_inside_dots) (simp add: plain_segment_def)
next
  case False
  with assms(2) have "length (path_segments p) \<le> length (root_segments outDir)"
    by (auto split: if_splits)
  then show ?thesis by (rule not_inside_short)
qed

lemma inside_plain:
  assumes "\<forall>t \<in> set T. plain_segment t"
  shows "inside outDir (path_join outDir (join ''/'' T)) \<longleftrightarrow> T \<noteq> []"
proof -
  from assms have seg: "\<forall>t \<in> set T. segment t" by (simp add: plain_is_segment)
  have n: "normalize_segments (\<not> path_isAbsolute outDir) (rev (root_segments outDir)) T =
      root_segments outDir @ T"
    using assms by (simp add: normalize_segments_plain)
  note pj = path_join_segments [OF seg, of outDir, unfolded n]
  show ?thesis
  proof (cases "T = []")
    case True
    with pj have "\<not> inside outDir (path_join outDir (join ''/'' T))"
      by (intro inside_root_itself) simp_all
    with True show ?thesis by simp
  next
    case False
    with pj assms show ?thesis
      by (simp add: inside_def Let_def list_all_iff)
  qed
qed

lemma not_inside_dot: "\<not> inside outDir (path_join outDir ''.'')"
proof -
  have seg: "\<forall>t \<in> set [''.'']. segment t" by (simp add: segment_def slash_def)
  have n: "normalize_segments (\<not> path_isAbsolute outDir) (rev (root_segments outDir)) [''.''] =
      root_segments outDir"
    by simp
  from path_join_segments [OF seg, of outDir, unfolded n] show ?thesis
    by (intro inside_root_itself) simp_all
qed

lemma not_inside_dotdot: "\<not> inside outDir (path_join outDir ''..'')"
proof -
  let ?R = "root_segments outDir"
  let ?a = "\<not> path_isAbsolute outDir"
  let ?N = "normalize_segments ?a (rev ?R) [''..'']"
  let ?p = "path_join outDir ''..''"
  have seg: "\<forall>t \<in> set [''..'']. segment t" by (simp add: segment_def slash_def)
  from path_join_segments [OF seg, of outDir]
  have segs: "path_segments ?p = (if ?N = [] then (if path_isAbsolute outDir then [] else [''.'']) else ?N)"
    by simp
  have np: "\<not> plain_segment ''..''" "\<not> plain_segment ''.''" by (simp_all add: plain_segment_def)
  show ?thesis
  proof (cases ?R rule: rev_cases)
    case Nil
    show ?thesis
    proof (cases "path_isAbsolute outDir")
      case True
      with Nil segs have "length (path_segments ?p) \<le> length ?R" by simp
      then show ?thesis by (rule not_inside_short)
    next
      case False
      with Nil segs have "path_segments ?p = [] @ [''..'']" by simp
      then show ?thesis using np(1) by (rule not_inside_dots)
    qed
  next
    case (snoc R' y)
    show ?thesis
    proof (cases "y = ''..''")
      case True
      show ?thesis
      proof (cases "path_isAbsolute outDir")
        case True
        with snoc \<open>y = ''..''\<close> segs have "length (path_segments ?p) \<le> length ?R" by simp
        then show ?thesis by (rule not_inside_short)
      next
        case False
        with snoc \<open>y = ''..''\<close> segs have "path_segments ?p = ?R @ [''..'']" by simp
        then show ?thesis using np(1) by (rule not_inside_dots)
      qed
    next
      case False
      with snoc have N: "?N = R'" by simp
      show ?thesis
      proof (cases "R' = [] \<and> \<not> path_isAbsolute outDir")
        case True
        with segs N have "path_segments ?p = [] @ [''.'']" by simp
        then show ?thesis using np(2) by (rule not_inside_dots)
      next
        case False
        with segs N snoc have "length (path_segments ?p) \<le> length ?R" by auto
        then show ?thesis by (rule not_inside_short)
      qed
    qed
  qed
qed

lemma resolved_segments:
  assumes "path_isAbsolute a"
  shows "\<forall>t \<in> set (path_segments (path_resolve cwd a)). plain_segment t"
proof -
  let ?S = "normalize_segments False [] (split_slash (a @ ''/''))"
  from assms have ne: "a \<noteq> []" by (auto simp: path_isAbsolute_def)
  have plain: "\<forall>t \<in> set ?S. plain_segment t"
    by (rule normalize_segments_no_above) (auto dest: split_slash_pieces)
  from assms ne have "path_resolve cwd a = slash # join ''/'' ?S"
    by (simp add: path_resolve_def Let_def normalizeString_def slash_def)
  then have "path_segments (path_resolve cwd a) = ?S"
    using plain by (simp add: path_segments_leading path_segments_join plain_is_segment)
  with plain show ?thesis by simp
qed

lemma relative_shape:
  assumes "path_isAbsolute a"
  shows "prefix ''..'' (path_relative cwd root a) \<or>
         (\<exists>T. (\<forall>t \<in> set T. plain_segment t) \<and> path_relative cwd root a = join ''/'' T)"
proof -
  let ?S = "path_segments (path_resolve cwd a)"
  obtain fs ts where dc: "drop_common (path_segments (path_resolve cwd root)) ?S = (fs, ts)"
    by (cases "drop_common (path_segments (path_resolve cwd root)) ?S")
  from drop_common_rest [OF dc] resolved_segments [OF assms, of cwd]
  have ts: "\<forall>t \<in> set ts. plain_segment t" by auto
  have empty: "\<exists>T. (\<forall>t \<in> set T. plain_segment t) \<and> [] = join ''/'' T"
    by (intro exI [of _ "[]"]) simp
  have rel: "path_relative cwd root a = [] \<or>
      path_relative cwd root a = join ''/'' (replicate (length fs) ''..'' @ ts)"
    unfolding path_relative_def Let_def dc by simp
  then show ?thesis
  proof
    assume "path_relative cwd root a = []"
    with empty show ?thesis by simp
  next
    assume 2: "path_relative cwd root a = join ''/'' (replicate (length fs) ''..'' @ ts)"
    show ?thesis
    proof (cases "length fs = 0")
      case True
      with 2 ts show ?thesis by auto
    next
      case False
      from join_parent_prefix [OF False, of ts] 2 show ?thesis by simp
    qed
  qed
qed

lemma basename_shape:
  "path_basename a = ''.'' \<or> path_basename a = ''..'' \<or>
   (\<exists>T. (\<forall>t \<in> set T. plain_segment t) \<and> path_basename a = join ''/'' T)"
proof -
  let ?b = "path_basename a"
  have "?b \<in> set (split_slash (strip_trailing_slashes a))"
    unfolding path_basename_def by (rule last_in_set) (rule split_slash_nonempty)
  then have free: "slash \<notin> set ?b" by (rule split_slash_pieces)
  show ?thesis
  proof (cases "?b = [] \<or> ?b = ''.'' \<or> ?b = ''..''")
    case True
    then consider "?b = []" | "?b = ''.''" | "?b = ''..''" by blast
    then show ?thesis
    proof cases
      case 1
      then have "(\<forall>t \<in> set []. plain_segment t) \<and> ?b = join ''/'' []" by simp
      then show ?thesis by blast
    qed simp_all
  next
    case False
    with free have "(\<forall>t \<in> set [?b]. plain_segment t) \<and> ?b = join ''/'' [?b]"
      by (simp add: plain_segment_def)
    then show ?thesis by blast
  qed
qed

lemma join_plain_not_dots:
  assumes "\<forall>t \<in> set T. plain_segment t"
  shows "join ''/'' T \<noteq> ''.'' \<and> join ''/'' T \<noteq> ''..'' \<and> (join ''/'' T = [] \<longleftrightarrow> T = [])"
proof (cases T)
  case Nil
  then show ?thesis by simp
next
  case (Cons t ts)
  show ?thesis
  proof (cases ts)
    case Nil
    with Cons assms show ?thesis by (simp add: plain_segment_def)
  next
    case (Cons u us)
    with \<open>T = t # ts\<close> have in_join: "slash \<in> set (join ''/'' T)" by (simp add: slash_def)
    have "join ''/'' T \<noteq> ''.''"
    proof
      assume "join ''/'' T = ''.''"
      with in_join have "slash \<in> set ''.''" by simp
      then show False by (simp add: slash_def)
    qed
    moreover have "join ''/'' T \<noteq> ''..''"
    proof
      assume "join ''/'' T = ''..''"
      with in_join have "slash \<in> set ''..''" by simp
      then show False by (simp add: slash_def)
    qed
    moreover have "join ''/'' T \<noteq> []"
    proof
      assume "join ''/'' T = []"
      with in_join show False by simp
    qed
    ultimately show ?thesis using \<open>T = t # ts\<close> by simp
  qed
qed

text \<open>
  C7, as amended. For every output root, every content and every absolute source path,
  \<open>writeMirrored\<close> takes the path relative to the configured root, or the base name of
  the source path when that relative path starts with \<open>..\<close>, joins the name so chosen
  to the output root and writes there; the names are computed by operations on strings
  that cannot fail, for a source outside the root as for one inside it. The path written
  lies inside the output root exactly when the name chosen is not empty, not \<open>.\<close> and
  not \<open>..\<close>.
\<close>

theorem mirrored_path_inside:
  assumes "path_isAbsolute absFilePath"
  shows
    "(let rel = path_relative cwd (ascxRootDir opts cwd) absFilePath;
          safeRel = (if prefix ''..'' rel then path_basename absFilePath else rel)
      in outPath opts cwd outDir absFilePath = path_join outDir safeRel \<and>
         written_paths (trace (writeMirrored opts cwd outDir absFilePath contents w)) =
           written_paths (trace w) @ [path_join outDir safeRel] \<and>
         (inside outDir (path_join outDir safeRel) \<longleftrightarrow>
            safeRel \<noteq> [] \<and> safeRel \<noteq> ''.'' \<and> safeRel \<noteq> ''..''))"
proof -
  define rel where "rel = path_relative cwd (ascxRootDir opts cwd) absFilePath"
  define safeRel where "safeRel = (if prefix ''..'' rel then path_basename absFilePath else rel)"
  have shape: "safeRel = ''.'' \<or> safeRel = ''..'' \<or>
      (\<exists>T. (\<forall>t \<in> set T. plain_segment t) \<and> safeRel = join ''/'' T)"
  proof (cases "prefix ''..'' rel")
    case True
    then have "safeRel = path_basename absFilePath" by (simp add: safeRel_def)
    with basename_shape [of absFilePath] show ?thesis by simp
  next
    case False
    then have "safeRel = rel" by (simp add: safeRel_def)
    with relative_shape [OF assms, of cwd "ascxRootDir opts cwd"] False show ?thesis
      unfolding rel_def [symmetric] by blast
  qed
  have iff: "inside outDir (path_join outDir safeRel) \<longleftrightarrow>
      safeRel \<noteq> [] \<and> safeRel \<noteq> ''.'' \<and> safeRel \<noteq> ''..''"
    using shape
  proof (elim disjE exE conjE)
    assume "safeRel = ''.''"
    with not_inside_dot [of outDir] show ?thesis by simp
  next
    assume "safeRel = ''..''"
    with not_inside_dotdot [of outDir] show ?thesis by simp
  next
    fix T
    assume plain: "\<forall>t \<in> set T. plain_segment t" and eq: "safeRel = join ''/'' T"
    show ?thesis
      unfolding eq using inside_plain [OF plain, of outDir] join_plain_not_dots [OF plain]
      by blast
  qed
  have out: "outPath opts cwd outDir absFilePath = path_join outDir safeRel"
    by (simp add: outPath_def Let_def safeRel_def rel_def)
  have wr: "written_paths (trace (writeMirrored opts cwd outDir absFilePath contents w)) =
      written_paths (trace w) @ [path_join outDir safeRel]"
    unfolding out [symmetric] by (simp add: trace_writeMirrored written_paths_append)
  from out wr iff show ?thesis
    unfolding Let_def rel_def [symmetric] safeRel_def [symmetric] by (intro conjI)
qed

theorem mirrored_path_inside_witness:
  "path_isAbsolute ''/elsewhere/x.ascx'' \<and>
   prefix ''..'' (path_relative ''/proj'' (ascxRootDir example_options ''/proj'') ''/elsewhere/x.ascx'') \<and>
   outPath example_options ''/proj'' ''/out'' ''/elsewhere/x.ascx'' = ''/out/x.ascx'' \<and>
   written_paths (trace (writeMirrored example_options ''/proj'' ''/out'' ''/elsewhere/x.ascx'' ''<p/>''
      \<lparr>files = Map.empty, trace = []\<rparr>)) = [''/out/x.ascx''] \<and>
   inside ''/out'' ''/out/x.ascx'' \<and>
   outPath example_options ''/proj'' ''/out'' ''/proj/skins/a.ascx'' = ''/out/skins/a.ascx'' \<and>
   inside ''/out'' ''/out/skins/a.ascx'' \<and>
   outPath example_options ''/proj'' ''/out'' ''/x/../y.ascx'' = ''/out/y.ascx'' \<and>
   inside ''/out'' ''/out/y.ascx'' \<and>
   outPath example_options ''/proj'' ''/out'' ''/proj//skins/./a.ascx'' = ''/out/skins/a.ascx'' \<and>
   outPath example_options ''/proj'' ''/out'' ''/elsewhere/x.ascx/'' = ''/out/x.ascx''"
proof -
  have h: "path_isAbsolute ''/elsewhere/x.ascx''" "path_isAbsolute ''/proj/skins/a.ascx''"
    "path_isAbsolute ''/x/../y.ascx''"
    by code_simp+
  have out: "prefix ''..'' (path_relative ''/proj'' (ascxRootDir example_options ''/proj'') ''/elsewhere/x.ascx'')"
    by code_simp
  have s1: "(if prefix ''..'' (path_relative ''/proj'' (ascxRootDir example_options ''/proj'') ''/elsewhere/x.ascx'')
             then path_basename ''/elsewhere/x.ascx''
             else path_relative ''/proj'' (ascxRootDir example_options ''/proj'') ''/elsewhere/x.ascx'') = ''x.ascx''"
    by code_simp
  have s2: "(if prefix ''..'' (path_relative ''/proj'' (ascxRootDir example_options ''/proj'') ''/proj/skins/a.ascx'')
             then path_basename ''/proj/skins/a.ascx''
             else path_relative ''/proj'' (ascxRootDir example_options ''/proj'') ''/proj/skins/a.ascx'') = ''skins/a.ascx''"
    by code_simp
  have s3: "(if prefix ''..'' (path_relative ''/proj'' (ascxRootDir example_options ''/proj'') ''/x/../y.ascx'')
             then path_basename ''/x/../y.ascx''
             else path_relative ''/proj'' (ascxRootDir example_options ''/proj'') ''/x/../y.ascx'') = ''y.ascx''"
    by code_simp
  have j: "path_join ''/out'' ''x.ascx'' = ''/out/x.ascx''"
    "path_join ''/out'' ''skins/a.ascx'' = ''/out/skins/a.ascx''"
    "path_join ''/out'' ''y.ascx'' = ''/out/y.ascx''"
    by code_simp+
  have p4: "outPath example_options ''/proj'' ''/out'' ''/proj//skins/./a.ascx'' = ''/out/skins/a.ascx''"
    by code_simp
  have p5: "outPath example_options ''/proj'' ''/out'' ''/elsewhere/x.ascx/'' = ''/out/x.ascx''"
    by code_simp
  have r1: "outPath example_options ''/proj'' ''/out'' ''/elsewhere/x.ascx'' = ''/out/x.ascx'' \<and>
      written_paths (trace (writeMirrored example_options ''/proj'' ''/out'' ''/elsewhere/x.ascx'' ''<p/>''
        \<lparr>files = Map.empty, trace = []\<rparr>)) = [''/out/x.ascx''] \<and>
      inside ''/out'' ''/out/x.ascx''"
    using mirrored_path_inside [OF h(1), where cwd = "''/proj''" and opts = example_options
        and outDir = "''/out''" and contents = "''<p/>''" and w = "\<lparr>files = Map.empty, trace = []\<rparr>"]
    unfolding Let_def s1 j by simp
  have r2: "outPath example_options ''/proj'' ''/out'' ''/proj/skins/a.ascx'' = ''/out/skins/a.ascx'' \<and>
      inside ''/out'' ''/out/skins/a.ascx''"
    using mirrored_path_inside [OF h(2), where cwd = "''/proj''" and opts = example_options
        and outDir = "''/out''" and contents = "''<p/>''" and w = "\<lparr>files = Map.empty, trace = []\<rparr>"]
    unfolding Let_def s2 j by simp
  have r3: "outPath example_options ''/proj'' ''/out'' ''/x/../y.ascx'' = ''/out/y.ascx'' \<and>
      inside ''/out'' ''/out/y.ascx''"
    using mirrored_path_inside [OF h(3), where cwd = "''/proj''" and opts = example_options
        and outDir = "''/out''" and contents = "''<p/>''" and w = "\<lparr>files = Map.empty, trace = []\<rparr>"]
    unfolding Let_def s3 j by simp
  from h(1) out r1 r2 r3 p4 p5 show ?thesis by blast
qed

text \<open>
  The claim as first stated covers every absolute source path. The base name of a path
  that ends with the segment \<open>..\<close> is \<open>..\<close>, and joining it to the output root leaves
  the root; the path of the configured root itself, relative to that root, is empty, and
  the path written is the output root, not a path inside it.
\<close>

theorem mirrored_path_counterexample:
  "path_isAbsolute ''/x/..'' \<and>
   outPath example_options ''/r/p'' ''/out'' ''/x/..'' = ''/'' \<and>
   \<not> inside ''/out'' ''/'' \<and>
   path_isAbsolute ''/proj'' \<and>
   outPath example_options ''/proj'' ''/out'' ''/proj'' = ''/out'' \<and>
   \<not> inside ''/out'' ''/out''"
  by code_simp

end
